theory Spec2Isabelle
  imports Complex_Main "HOL-Library.AList"
begin

section \<open>Data model of src/app/agent.py\<close>

text \<open>
  Python strings are modelled as \<^typ>\<open>string\<close>, Python dictionaries as association lists
  in insertion order (\<open>map_of\<close> reads a key, \<open>AList.update\<close> writes one: an existing key
  keeps its position, a new key is appended, as in a Python dict), \<open>len\<close> of a dictionary
  as \<open>length\<close>. Confidence scores are passed through unchanged by the code and are
  modelled as \<^typ>\<open>real\<close>.
\<close>

subsection \<open>Grounding metadata carried by session events\<close>

record GroundingChunkWeb =
  uri :: string
  web_title :: string
  web_domain :: string

record GroundingChunk =
  web :: "GroundingChunkWeb option"

record Segment =
  seg_text :: string

record GroundingSupport =
  segment :: "Segment option"
  grounding_chunk_indices :: "int list option"
  confidence_scores :: "real list option"

record GroundingMetadata =
  grounding_chunks :: "GroundingChunk list option"
  grounding_supports :: "GroundingSupport list option"

record EventActions =
  escalate :: "bool option"

record Event =
  author :: string
  actions :: EventActions
  grounding_metadata :: "GroundingMetadata option"

subsection \<open>Session state\<close>

record claim_entry =
  text_segment :: string
  confidence :: real

record source_info =
  short_id :: string
  title :: string
  url :: string
  domain :: string
  supported_claims :: "claim_entry list"

record Feedback =
  grade :: "string option"
  comment :: "string option"
  follow_up_queries :: "string list option"

type_synonym url_index = "(string \<times> string) list"
type_synonym registry = "(string \<times> source_info) list"

text \<open>A slot that is absent from the session state is \<open>None\<close>.\<close>

record session_state =
  url_to_short_id :: "url_index option"
  sources :: "registry option"
  research_evaluation :: "Feedback option"
  final_cited_report :: "string option"
  final_report_with_citations :: "string option"

datatype error = KeyError

section \<open>collect_research_sources_callback\<close>

text \<open>The decimal numeral printed by \<open>f"src-{id_counter}"\<close>.\<close>

definition digit_char :: "nat \<Rightarrow> char" where
  "digit_char d = char_of (48 + d)"

fun str_nat :: "nat \<Rightarrow> string" where
  "str_nat n = (if n < 10 then [digit_char n] else str_nat (n div 10) @ [digit_char (n mod 10)])"

declare str_nat.simps [simp del]

definition src_id :: "nat \<Rightarrow> string" where
  "src_id n = ''src-'' @ str_nat n"

text \<open>\<open>enumerate\<close>: positions are Python ints.\<close>

definition enumerate_int :: "'a list \<Rightarrow> (int \<times> 'a) list" where
  "enumerate_int xs = zip (map int [0..<length xs]) xs"

text \<open>
  Lines 77--97: the loop over one event's grounding chunks. The loop variables are the
  URL index, the registry, \<open>id_counter\<close> and \<open>chunks_info\<close>.
\<close>

fun chunk_loop ::
  "(int \<times> GroundingChunk) list \<Rightarrow> url_index \<times> registry \<times> nat \<times> (int \<times> string) list
    \<Rightarrow> url_index \<times> registry \<times> nat \<times> (int \<times> string) list" where
  "chunk_loop [] acc = acc"
| "chunk_loop ((idx, chunk) # rest) (u2s, srcs, id_counter, chunks_info) =
     (case web chunk of
        None \<Rightarrow> chunk_loop rest (u2s, srcs, id_counter, chunks_info)
      | Some w \<Rightarrow>
          (let u = uri w;
               t = (if web_title w \<noteq> web_domain w then web_title w else web_domain w)
           in case map_of u2s u of
                None \<Rightarrow>
                  (let sid = src_id id_counter
                   in chunk_loop rest
                        (AList.update u sid u2s,
                         AList.update sid
                           \<lparr>short_id = sid, title = t, url = u, domain = web_domain w,
                            supported_claims = []\<rparr> srcs,
                         id_counter + 1,
                         AList.update idx sid chunks_info))
              | Some sid \<Rightarrow>
                  chunk_loop rest (u2s, srcs, id_counter, AList.update idx sid chunks_info)))"

text \<open>
  Lines 102--114: the loop over one support's chunk indices. \<open>sources[short_id]\<close> raises
  \<open>KeyError\<close> when the identifier is not a key of the registry.
\<close>

fun claim_loop ::
  "(nat \<times> int) list \<Rightarrow> real list \<Rightarrow> string \<Rightarrow> (int \<times> string) list \<Rightarrow> registry
    \<Rightarrow> error + registry" where
  "claim_loop [] cs txt chunks_info srcs = Inr srcs"
| "claim_loop ((i, chunk_idx) # rest) cs txt chunks_info srcs =
     (case map_of chunks_info chunk_idx of
        None \<Rightarrow> claim_loop rest cs txt chunks_info srcs
      | Some sid \<Rightarrow>
          (let c = (if i < length cs then cs ! i else 0.5)
           in case map_of srcs sid of
                None \<Rightarrow> Inl KeyError
              | Some info \<Rightarrow>
                  claim_loop rest cs txt chunks_info
                    (AList.update sid
                       (info\<lparr>supported_claims :=
                          supported_claims info @ [\<lparr>text_segment = txt, confidence = c\<rparr>]\<rparr>)
                       srcs)))"

definition process_support ::
  "(int \<times> string) list \<Rightarrow> GroundingSupport \<Rightarrow> registry \<Rightarrow> error + registry" where
  "process_support chunks_info support srcs =
     (let cs = (case confidence_scores support of None \<Rightarrow> [] | Some l \<Rightarrow> l);
          chunk_indices = (case grounding_chunk_indices support of None \<Rightarrow> [] | Some l \<Rightarrow> l);
          txt = (case segment support of None \<Rightarrow> [] | Some s \<Rightarrow> seg_text s)
      in claim_loop (zip [0..<length chunk_indices] chunk_indices) cs txt chunks_info srcs)"

fun support_loop ::
  "GroundingSupport list \<Rightarrow> (int \<times> string) list \<Rightarrow> registry \<Rightarrow> error + registry" where
  "support_loop [] chunks_info srcs = Inr srcs"
| "support_loop (support # rest) chunks_info srcs =
     (case process_support chunks_info support srcs of
        Inl e \<Rightarrow> Inl e
      | Inr srcs' \<Rightarrow> support_loop rest chunks_info srcs')"

text \<open>Lines 74--114: the body of the loop over the session's events.\<close>

definition process_event ::
  "Event \<Rightarrow> url_index \<times> registry \<times> nat \<Rightarrow> error + url_index \<times> registry \<times> nat" where
  "process_event event acc =
     (case grounding_metadata event of
        None \<Rightarrow> Inr acc
      | Some gm \<Rightarrow>
          (case grounding_chunks gm of
             None \<Rightarrow> Inr acc
           | Some [] \<Rightarrow> Inr acc
           | Some chunks \<Rightarrow>
               (case chunk_loop (enumerate_int chunks) (fst acc, fst (snd acc), snd (snd acc), []) of
                  (u2s, srcs, id_counter, chunks_info) \<Rightarrow>
                    (case grounding_supports gm of
                       None \<Rightarrow> Inr (u2s, srcs, id_counter)
                     | Some supports \<Rightarrow>
                         (case support_loop supports chunks_info srcs of
                            Inl e \<Rightarrow> Inl e
                          | Inr srcs' \<Rightarrow> Inr (u2s, srcs', id_counter))))))"

fun event_loop ::
  "Event list \<Rightarrow> url_index \<times> registry \<times> nat \<Rightarrow> error + url_index \<times> registry \<times> nat" where
  "event_loop [] acc = Inr acc"
| "event_loop (event # rest) acc =
     (case process_event event acc of
        Inl e \<Rightarrow> Inl e
      | Inr acc' \<Rightarrow> event_loop rest acc')"

text \<open>
  Lines 68--116. The first argument is \<open>session.events\<close>; the two slots are written only
  when the loop has run to its end.
\<close>

definition collect_research_sources_callback ::
  "Event list \<Rightarrow> session_state \<Rightarrow> error + session_state" where
  "collect_research_sources_callback events st =
     (let u2s = (case url_to_short_id st of None \<Rightarrow> [] | Some d \<Rightarrow> d);
          srcs = (case sources st of None \<Rightarrow> [] | Some d \<Rightarrow> d);
          id_counter = length u2s + 1
      in case event_loop events (u2s, srcs, id_counter) of
           Inl e \<Rightarrow> Inl e
         | Inr (u2s', srcs', _) \<Rightarrow>
             Inr (st\<lparr>url_to_short_id := Some u2s', sources := Some srcs'\<rparr>))"

section \<open>citation_replacement_callback\<close>

subsection \<open>The fragment of Python's regular expressions that the two patterns use\<close>

text \<open>
  Both patterns are sequences of single-character classes, each taken once, optionally
  (\<open>?\<close>), zero or more times (\<open>*\<close>) or one or more times (\<open>+\<close>). \<open>re_match\<close> is the
  backtracking matcher at the start of a string: quantifiers are greedy and give
  characters back when the rest of the pattern fails. It returns the text consumed by
  each item and the unconsumed rest. Characters are code points below 256.
\<close>

datatype quant = One | Opt | Star | Plus

type_synonym pattern = "(quant \<times> (char \<Rightarrow> bool)) list"

definition push_seg :: "string \<Rightarrow> (string list \<times> string) option \<Rightarrow> (string list \<times> string) option" where
  "push_seg seg r = (case r of None \<Rightarrow> None | Some (segs, rest) \<Rightarrow> Some (seg # segs, rest))"

definition grow_seg :: "char \<Rightarrow> (string list \<times> string) option \<Rightarrow> (string list \<times> string) option" where
  "grow_seg c r =
     (case r of
        None \<Rightarrow> None
      | Some ([], rest) \<Rightarrow> None
      | Some (seg # segs, rest) \<Rightarrow> Some ((c # seg) # segs, rest))"

fun re_match :: "pattern \<Rightarrow> string \<Rightarrow> (string list \<times> string) option" where
  "re_match [] s = Some ([], s)"
| "re_match ((One, p) # r) [] = None"
| "re_match ((One, p) # r) (c # cs) = (if p c then push_seg [c] (re_match r cs) else None)"
| "re_match ((Opt, p) # r) [] = push_seg [] (re_match r [])"
| "re_match ((Opt, p) # r) (c # cs) =
     (if p c then
        (case push_seg [c] (re_match r cs) of
           Some m \<Rightarrow> Some m
         | None \<Rightarrow> push_seg [] (re_match r (c # cs)))
      else push_seg [] (re_match r (c # cs)))"
| "re_match ((Star, p) # r) [] = push_seg [] (re_match r [])"
| "re_match ((Star, p) # r) (c # cs) =
     (if p c then
        (case grow_seg c (re_match ((Star, p) # r) cs) of
           Some m \<Rightarrow> Some m
         | None \<Rightarrow> push_seg [] (re_match r (c # cs)))
      else push_seg [] (re_match r (c # cs)))"
| "re_match ((Plus, p) # r) [] = None"
| "re_match ((Plus, p) # r) (c # cs) =
     (if p c then grow_seg c (re_match ((Star, p) # r) cs) else None)"

text \<open>
  \<open>re.sub\<close> with a function as replacement: the leftmost match is replaced, the scan goes
  on behind it, a character at which nothing matches is copied. The replacement function
  also threads a log, for the warnings \<open>tag_replacer\<close> writes. After an empty match
  Python copies one character and goes on.
\<close>

fun re_sub ::
  "pattern \<Rightarrow> (string list \<Rightarrow> string \<times> string list) \<Rightarrow> string \<Rightarrow> string \<times> string list" where
  "re_sub pat repl [] =
     (case re_match pat [] of None \<Rightarrow> ([], []) | Some (segs, rest) \<Rightarrow> repl segs)"
| "re_sub pat repl (c # cs) =
     (case re_match pat (c # cs) of
        None \<Rightarrow> (case re_sub pat repl cs of (out, msgs) \<Rightarrow> (c # out, msgs))
      | Some (segs, rest) \<Rightarrow>
          (case repl segs of
             (new, w) \<Rightarrow>
               if length rest < Suc (length cs)
               then (case re_sub pat repl rest of (out, msgs) \<Rightarrow> (new @ out, w @ msgs))
               else (case re_sub pat repl cs of (out, msgs) \<Rightarrow> (new @ c # out, w @ msgs))))"

text \<open>\<open>\s\<close> and \<open>\d\<close> of a \<open>str\<close> pattern, on code points below 256.\<close>

definition is_space :: "char \<Rightarrow> bool" where
  "is_space c =
     (let n = (of_char c :: nat)
      in (9 \<le> n \<and> n \<le> 13) \<or> (28 \<le> n \<and> n \<le> 32) \<or> n = 133 \<or> n = 160)"

definition is_digit :: "char \<Rightarrow> bool" where
  "is_digit c = (let n = (of_char c :: nat) in 48 \<le> n \<and> n \<le> 57)"

definition lit :: "string \<Rightarrow> pattern" where
  "lit s = map (\<lambda>c. (One, (\<lambda>x. x = c))) s"

definition is_quote :: "char \<Rightarrow> bool" where
  "is_quote c = (c = CHR 0x22 \<or> c = CHR 0x27)"

text \<open>
  The pattern of line 128,
  \<^verbatim>\<open><cite\s+source\s*=\s*["\']?\s*(src-\d+)\s*["\']?\s*/>\<close>,
  in three parts: before the group, the group, and behind it.
\<close>

definition cite_before :: pattern where
  "cite_before =
     lit ''<cite'' @ [(Plus, is_space)] @ lit ''source'' @ [(Star, is_space)] @ lit ''=''
       @ [(Star, is_space), (Opt, is_quote), (Star, is_space)]"

definition cite_group :: pattern where
  "cite_group = lit ''src-'' @ [(Plus, is_digit)]"

definition cite_behind :: pattern where
  "cite_behind = [(Star, is_space), (Opt, is_quote), (Star, is_space)] @ lit ''/>''"

definition cite_pattern :: pattern where
  "cite_pattern = cite_before @ cite_group @ cite_behind"

definition cite_group0 :: "string list \<Rightarrow> string" where
  "cite_group0 segs = concat segs"

definition cite_group1 :: "string list \<Rightarrow> string" where
  "cite_group1 segs = concat (take (length cite_group) (drop (length cite_before) segs))"

text \<open>The pattern of line 129, \<^verbatim>\<open>\s+([.,;:])\<close>, replaced by its group.\<close>

definition is_punct :: "char \<Rightarrow> bool" where
  "is_punct c = (c = CHR ''.'' \<or> c = CHR '','' \<or> c = CHR '';'' \<or> c = CHR '':'')"

definition punct_pattern :: pattern where
  "punct_pattern = [(Plus, is_space), (One, is_punct)]"

definition punct_group1 :: "string list \<Rightarrow> string \<times> string list" where
  "punct_group1 segs = (concat (drop 1 segs), [])"

subsection \<open>The callback\<close>

record Part =
  part_text :: string

record Content =
  parts :: "Part list"

text \<open>
  Lines 121--127. A registry record always holds its five keys, so it is truthy and
  \<open>source_info.get("title", ...)\<close> is its title. The second component is the warning
  logged.
\<close>

definition tag_replacer :: "registry \<Rightarrow> string list \<Rightarrow> string \<times> string list" where
  "tag_replacer srcs segs =
     (let sid = cite_group1 segs
      in case map_of srcs sid of
           None \<Rightarrow> ([], [''Invalid citation tag found and removed: '' @ cite_group0 segs])
         | Some info \<Rightarrow> ('' ['' @ title info @ '']('' @ url info @ '')'', []))"

text \<open>Lines 118--131: the new state, the returned content and the warnings logged.\<close>

definition citation_replacement_callback ::
  "session_state \<Rightarrow> session_state \<times> Content \<times> string list" where
  "citation_replacement_callback st =
     (let final_report = (case final_cited_report st of None \<Rightarrow> [] | Some r \<Rightarrow> r);
          srcs = (case sources st of None \<Rightarrow> [] | Some d \<Rightarrow> d)
      in case re_sub cite_pattern (tag_replacer srcs) final_report of
           (cited, warnings) \<Rightarrow>
             (case re_sub punct_pattern punct_group1 cited of
                (processed_report, _) \<Rightarrow>
                  (st\<lparr>final_report_with_citations := Some processed_report\<rparr>,
                   \<lparr>parts = [\<lparr>part_text = processed_report\<rparr>]\<rparr>,
                   warnings)))"

section \<open>EscalationChecker\<close>

text \<open>
  A verdict in the state is a dictionary (a key that is absent is \<open>None\<close>): it is falsy
  when it has no key. Lines 137--144:
  the state (which the method only reads), the events yielded and the lines logged.
\<close>

definition verdict_truthy :: "Feedback \<Rightarrow> bool" where
  "verdict_truthy fb = (grade fb \<noteq> None \<or> comment fb \<noteq> None \<or> follow_up_queries fb \<noteq> None)"

definition run_async_impl :: "string \<Rightarrow> session_state \<Rightarrow> session_state \<times> Event list \<times> string list" where
  "run_async_impl name st =
     (case research_evaluation st of
        None \<Rightarrow>
          (st, [\<lparr>author = name, actions = \<lparr>escalate = None\<rparr>, grounding_metadata = None\<rparr>],
           [''['' @ name @ ''] Research evaluation failed or not found. Loop will continue.''])
      | Some evaluation_result \<Rightarrow>
          if verdict_truthy evaluation_result \<and> grade evaluation_result = Some ''pass''
          then
            (st, [\<lparr>author = name, actions = \<lparr>escalate = Some True\<rparr>, grounding_metadata = None\<rparr>],
             [''['' @ name @ ''] Research evaluation passed. Escalating to stop loop.''])
          else
            (st, [\<lparr>author = name, actions = \<lparr>escalate = None\<rparr>, grounding_metadata = None\<rparr>],
             [''['' @ name @ ''] Research evaluation failed or not found. Loop will continue.'']))"

section \<open>Concrete inputs\<close>

text \<open>The report and registry of the round-trip example.\<close>

definition report6 :: string where
  "report6 =
     ''Claim A<cite source='' @ [CHR 0x22] @ ''src-1'' @ [CHR 0x22] @ ''/>, claim B<cite source=''
       @ [CHR 0x22] @ ''src-2'' @ [CHR 0x22] @ ''/>.''"

definition rewritten6 :: string where
  "rewritten6 = ''Claim A [T1](u1), claim B [T2](u2).''"

definition registry6 :: registry where
  "registry6 =
        [(''src-1'', \<lparr>short_id = ''src-1'', title = ''T1'', url = ''u1'', domain = ''d1'',
                      supported_claims = []\<rparr>),
         (''src-2'', \<lparr>short_id = ''src-2'', title = ''T2'', url = ''u2'', domain = ''d2'',
                      supported_claims = []\<rparr>)]"

definition state6 :: session_state where
  "state6 =
     \<lparr>url_to_short_id = Some [(''u1'', ''src-1''), (''u2'', ''src-2'')],
      sources = Some registry6,
      research_evaluation = None,
      final_cited_report = Some report6,
      final_report_with_citations = None\<rparr>"

text \<open>The text each item of the citation pattern consumes on \<open><cite source="src-N"/>\<close>.\<close>

definition marker_segs :: "string \<Rightarrow> string list" where
  "marker_segs n =
     map (\<lambda>c. [c]) ''<cite'' @ ['' ''] @ map (\<lambda>c. [c]) ''source'' @ [[], ''='', [], [CHR 0x22], []]
       @ map (\<lambda>c. [c]) ''src-'' @ [n, [], [CHR 0x22], [], ''/'', ''>'']"

text \<open>Session states with a passing verdict, a failing verdict and no verdict.\<close>

definition state_with_verdict :: "Feedback option \<Rightarrow> session_state" where
  "state_with_verdict v =
     \<lparr>url_to_short_id = None, sources = None, research_evaluation = v,
      final_cited_report = None, final_report_with_citations = None\<rparr>"

definition verdict_pass :: Feedback where
  "verdict_pass = \<lparr>grade = Some ''pass'', comment = Some ''ok'', follow_up_queries = None\<rparr>"

definition verdict_fail :: Feedback where
  "verdict_fail =
     \<lparr>grade = Some ''fail'', comment = Some ''gaps'', follow_up_queries = Some [''more'']\<rparr>"

text \<open>
  A report with a marker for \<open>src-99\<close>, which the registry of the example does not hold:
  the text before the marker, the marker, and the text behind it.
\<close>

definition pre7 :: string where "pre7 = ''Claim A ''"
definition marker7 :: string where
  "marker7 = ''<cite source='' @ [CHR 0x22] @ ''src-99'' @ [CHR 0x22] @ ''/>''"
definition post7 :: string where
  "post7 = '' . More<cite source='' @ [CHR 0x22] @ ''src-1'' @ [CHR 0x22] @ ''/>.''"

definition state7 :: session_state where
  "state7 =
     \<lparr>url_to_short_id = None, sources = Some registry6, research_evaluation = None,
      final_cited_report = Some (pre7 @ marker7 @ post7), final_report_with_citations = None\<rparr>"


text \<open>A match at the start of \<open>s\<close>, seen at the start of \<open>s @ y\<close>.\<close>

definition extend_rest :: "string \<Rightarrow> (string list \<times> string) option \<Rightarrow> (string list \<times> string) option" where
  "extend_rest y r = (case r of None \<Rightarrow> None | Some (segs, rest) \<Rightarrow> Some (segs, rest @ y))"


text \<open>The two slots as the callback reads them: an absent slot is the empty dictionary.\<close>

definition index_of :: "session_state \<Rightarrow> url_index" where
  "index_of st = (case url_to_short_id st of None \<Rightarrow> [] | Some d \<Rightarrow> d)"

definition registry_of :: "session_state \<Rightarrow> registry" where
  "registry_of st = (case sources st of None \<Rightarrow> [] | Some d \<Rightarrow> d)"

definition chunk_urls :: "GroundingChunk list \<Rightarrow> string list" where
  "chunk_urls chunks = concat (map (\<lambda>c. case web c of None \<Rightarrow> [] | Some w \<Rightarrow> [uri w]) chunks)"

definition event_chunks :: "Event \<Rightarrow> GroundingChunk list" where
  "event_chunks event =
     (case grounding_metadata event of
        None \<Rightarrow> []
      | Some gm \<Rightarrow> (case grounding_chunks gm of None \<Rightarrow> [] | Some chunks \<Rightarrow> chunks))"

definition all_urls :: "Event list \<Rightarrow> string list" where
  "all_urls events = concat (map (\<lambda>e. chunk_urls (event_chunks e)) events)"

fun fresh_urls :: "string list \<Rightarrow> string list \<Rightarrow> string list" where
  "fresh_urls seen [] = []"
| "fresh_urls seen (u # us) =
     (if u \<in> set seen then fresh_urls seen us else u # fresh_urls (seen @ [u]) us)"

definition decimal_value :: "string \<Rightarrow> nat" where
  "decimal_value s = foldl (\<lambda>a c. 10 * a + (of_char c - 48)) 0 s"

definition extend_index :: "url_index \<Rightarrow> nat \<Rightarrow> string list \<Rightarrow> url_index" where
  "extend_index u2s n us =
     (let new = fresh_urls (map fst u2s) us
      in u2s @ zip new (map src_id [n..<n + length new]))"

definition claims_of :: "registry \<Rightarrow> string \<Rightarrow> claim_entry list" where
  "claims_of srcs sid = (case map_of srcs sid of None \<Rightarrow> [] | Some r \<Rightarrow> supported_claims r)"

definition registry_pairs :: "registry \<Rightarrow> url_index" where
  "registry_pairs srcs = map (\<lambda>(k, r). (url r, k)) srcs"

definition collector_inv :: "url_index \<Rightarrow> registry \<Rightarrow> nat \<Rightarrow> bool" where
  "collector_inv u2s srcs n \<longleftrightarrow>
     snd ` set u2s \<subseteq> fst ` set srcs \<and> (\<forall>k\<ge>n. src_id k \<notin> fst ` set srcs)"

definition new_record :: "GroundingChunkWeb \<Rightarrow> nat \<Rightarrow> source_info" where
  "new_record w n =
     \<lparr>short_id = src_id n,
      title = (if web_title w \<noteq> web_domain w then web_title w else web_domain w),
      url = uri w, domain = web_domain w, supported_claims = []\<rparr>"

definition claim_for :: "real list \<Rightarrow> string \<Rightarrow> nat \<Rightarrow> claim_entry" where
  "claim_for cs txt i = \<lparr>text_segment = txt, confidence = (if i < length cs then cs ! i else 0.5)\<rparr>"

definition resolved_entries ::
  "(int \<Rightarrow> string option) \<Rightarrow> real list \<Rightarrow> string \<Rightarrow> (nat \<times> int) list \<Rightarrow> string \<Rightarrow> claim_entry list" where
  "resolved_entries f cs txt ixs sid =
     map (\<lambda>(i, idx). claim_for cs txt i) (filter (\<lambda>(i, idx). f idx = Some sid) ixs)"

definition support_entries :: "(int \<Rightarrow> string option) \<Rightarrow> GroundingSupport \<Rightarrow> string \<Rightarrow> claim_entry list" where
  "support_entries f support sid =
     (let cs = (case confidence_scores support of None \<Rightarrow> [] | Some l \<Rightarrow> l);
          chunk_indices = (case grounding_chunk_indices support of None \<Rightarrow> [] | Some l \<Rightarrow> l);
          txt = (case segment support of None \<Rightarrow> [] | Some s \<Rightarrow> seg_text s)
      in resolved_entries f cs txt (zip [0..<length chunk_indices] chunk_indices) sid)"

definition chunk_url_at :: "GroundingChunk list \<Rightarrow> int \<Rightarrow> string option" where
  "chunk_url_at chunks k =
     (if 0 \<le> k \<and> nat k < length chunks then map_option uri (web (chunks ! nat k)) else None)"

definition event_supports :: "Event \<Rightarrow> GroundingSupport list" where
  "event_supports event =
     (case grounding_metadata event of
        None \<Rightarrow> []
      | Some gm \<Rightarrow>
          (case grounding_chunks gm of
             None \<Rightarrow> []
           | Some [] \<Rightarrow> []
           | Some chunks \<Rightarrow> (case grounding_supports gm of None \<Rightarrow> [] | Some sps \<Rightarrow> sps)))"

definition event_entries :: "(string \<Rightarrow> string option) \<Rightarrow> Event \<Rightarrow> string \<Rightarrow> claim_entry list" where
  "event_entries f event sid =
     concat (map (\<lambda>sp. support_entries
                     (\<lambda>k. case chunk_url_at (event_chunks event) k of None \<Rightarrow> None | Some u \<Rightarrow> f u)
                     sp sid)
              (event_supports event))"

definition event_post ::
  "Event \<Rightarrow> url_index \<times> registry \<times> nat \<Rightarrow> url_index \<times> registry \<times> nat \<Rightarrow> bool" where
  "event_post event a b =
     (case a of (u2s, srcs, n) \<Rightarrow> case b of (u2s', srcs', n') \<Rightarrow>
        collector_inv u2s' srcs' n'
        \<and> (\<exists>added. u2s' = u2s @ added \<and> registry_pairs srcs' = registry_pairs srcs @ added)
        \<and> (\<forall>sid. claims_of srcs' sid = claims_of srcs sid @ event_entries (map_of u2s') event sid)
        \<and> u2s' = extend_index u2s n (chunk_urls (event_chunks event))
        \<and> n' = n + length (fresh_urls (map fst u2s) (chunk_urls (event_chunks event)))
        \<and> (\<forall>u \<in> set (chunk_urls (event_chunks event)). map_of u2s' u \<noteq> None))"

definition loop_post ::
  "Event list \<Rightarrow> url_index \<times> registry \<times> nat \<Rightarrow> url_index \<times> registry \<times> nat \<Rightarrow> bool" where
  "loop_post events a b =
     (case a of (u2s, srcs, n) \<Rightarrow> case b of (u2s', srcs', n') \<Rightarrow>
        collector_inv u2s' srcs' n'
        \<and> (\<exists>added. u2s' = u2s @ added \<and> registry_pairs srcs' = registry_pairs srcs @ added)
        \<and> (\<forall>sid. claims_of srcs' sid =
               claims_of srcs sid @ concat (map (\<lambda>e. event_entries (map_of u2s') e sid) events))
        \<and> u2s' = extend_index u2s n (all_urls events)
        \<and> n' = n + length (fresh_urls (map fst u2s) (all_urls events))
        \<and> (\<forall>u \<in> set (all_urls events). map_of u2s' u \<noteq> None))"

text \<open>A chunk map, a support with three chunk indices and one confidence score.\<close>

definition chunks_info3 :: "(int \<times> string) list" where
  "chunks_info3 = [(0, ''src-1''), (1, ''src-2'')]"

definition support3 :: GroundingSupport where
  "support3 =
     \<lparr>segment = Some \<lparr>seg_text = ''the sky is blue''\<rparr>,
      grounding_chunk_indices = Some [0, 5, 1],
      confidence_scores = Some [0.9]\<rparr>"

text \<open>
  The loop state after an event with two chunks, a later event with one chunk whose
  support names positions 0 and 1, and the registry after that event.
\<close>

definition index4 :: url_index where
  "index4 = [(''u1'', ''src-1''), (''u2'', ''src-2'')]"

definition event4 :: Event where
  "event4 =
     \<lparr>author = ''section_researcher'', actions = \<lparr>escalate = None\<rparr>,
      grounding_metadata = Some
        \<lparr>grounding_chunks = Some
           [\<lparr>web = Some \<lparr>uri = ''u2'', web_title = ''T2'', web_domain = ''d2''\<rparr>\<rparr>],
         grounding_supports = Some
           [\<lparr>segment = Some \<lparr>seg_text = ''grass is green''\<rparr>,
             grounding_chunk_indices = Some [0, 1],
             confidence_scores = None\<rparr>]\<rparr>\<rparr>"

definition registry4 :: registry where
  "registry4 =
     [(''src-1'', \<lparr>short_id = ''src-1'', title = ''T1'', url = ''u1'', domain = ''d1'',
                   supported_claims = []\<rparr>),
      (''src-2'', \<lparr>short_id = ''src-2'', title = ''T2'', url = ''u2'', domain = ''d2'',
                   supported_claims = [\<lparr>text_segment = ''grass is green'', confidence = 0.5\<rparr>]\<rparr>)]"

text \<open>
  A state is well formed when index and registry list the same URLs in the same order,
  each URL once, under the identifiers \<open>src-1\<close>, \<open>src-2\<close>, ... in that order. The state
  without the two slots is well formed, and the callback keeps states well formed.
\<close>

definition well_formed :: "session_state \<Rightarrow> bool" where
  "well_formed st \<longleftrightarrow>
     registry_pairs (registry_of st) = index_of st
     \<and> distinct (map fst (index_of st))
     \<and> map snd (index_of st) = map src_id [1..<Suc (length (index_of st))]"

text \<open>
  The state of a fresh session, and two events whose chunks name three URLs, two of them
  twice.
\<close>

definition empty_state :: session_state where
  "empty_state =
     \<lparr>url_to_short_id = None, sources = None, research_evaluation = None,
      final_cited_report = None, final_report_with_citations = None\<rparr>"

definition web_chunk :: "string \<Rightarrow> string \<Rightarrow> string \<Rightarrow> GroundingChunk" where
  "web_chunk u t d = \<lparr>web = Some \<lparr>uri = u, web_title = t, web_domain = d\<rparr>\<rparr>"

definition chunks_event :: "GroundingChunk list \<Rightarrow> GroundingSupport list option \<Rightarrow> Event" where
  "chunks_event chunks sps =
     \<lparr>author = ''section_researcher'', actions = \<lparr>escalate = None\<rparr>,
      grounding_metadata = Some \<lparr>grounding_chunks = Some chunks, grounding_supports = sps\<rparr>\<rparr>"

definition events2 :: "Event list" where
  "events2 =
     [chunks_event [web_chunk ''u1'' ''T1'' ''d1'', web_chunk ''u2'' ''T2'' ''d2'',
                    web_chunk ''u1'' ''T1'' ''d1'', \<lparr>web = None\<rparr>] None,
      chunks_event [web_chunk ''u3'' ''T3'' ''d3'', web_chunk ''u2'' ''T2'' ''d2''] None]"

text \<open>
  The claim entries that the grounding supports of a list of events give the record of
  a short identifier, when chunk URLs are resolved through the index \<open>u2s\<close>.
\<close>

definition appended_claims :: "url_index \<Rightarrow> Event list \<Rightarrow> string \<Rightarrow> claim_entry list" where
  "appended_claims u2s events sid = concat (map (\<lambda>e. event_entries (map_of u2s) e sid) events)"

text \<open>An event with two chunks and a support for both, and the state after one run over it.\<close>

definition events10 :: "Event list" where
  "events10 =
     [chunks_event [web_chunk ''u1'' ''T1'' ''d1'', web_chunk ''u2'' ''T2'' ''d2'']
        (Some [\<lparr>segment = Some \<lparr>seg_text = ''water is wet''\<rparr>,
                grounding_chunk_indices = Some [0, 1],
                confidence_scores = Some [0.8]\<rparr>])]"

definition state10 :: session_state where
  "state10 =
     empty_state
       \<lparr>url_to_short_id := Some [(''u1'', ''src-1''), (''u2'', ''src-2'')],
        sources := Some
          [(''src-1'', \<lparr>short_id = ''src-1'', title = ''T1'', url = ''u1'', domain = ''d1'',
              supported_claims = [\<lparr>text_segment = ''water is wet'', confidence = 0.8\<rparr>]\<rparr>),
           (''src-2'', \<lparr>short_id = ''src-2'', title = ''T2'', url = ''u2'', domain = ''d2'',
              supported_claims = [\<lparr>text_segment = ''water is wet'', confidence = 0.5\<rparr>]\<rparr>)]\<rparr>"

text \<open>
  Mutual consistency of index and registry, as the specification words it: every URL of
  the index maps to a key of the registry, and every key of the registry is the short
  identifier of exactly one URL of the index.
\<close>

definition mutually_consistent :: "url_index \<Rightarrow> registry \<Rightarrow> bool" where
  "mutually_consistent u2s srcs \<longleftrightarrow>
     list_all (\<lambda>(u, sid). sid \<in> set (map fst srcs)) u2s
     \<and> list_all (\<lambda>k. count_list (map snd u2s) k = 1) (map fst srcs)"

text \<open>Every identifier of the index is \<open>src-k\<close> for some \<open>k\<close> from 1 to the size of the index.\<close>

definition identifiers_numbered :: "url_index \<Rightarrow> bool" where
  "identifiers_numbered u2s \<longleftrightarrow>
     list_all (\<lambda>(u, sid). sid \<in> set (map src_id [1..<Suc (length u2s)])) u2s"

text \<open>
  A consistent state whose one identifier is not numbered by position, an event with a
  new URL, and the state after the run.
\<close>

definition state5 :: session_state where
  "state5 =
     empty_state
       \<lparr>url_to_short_id := Some [(''a'', ''src-2'')],
        sources := Some
          [(''src-2'', \<lparr>short_id = ''src-2'', title = ''A'', url = ''a'', domain = ''da'',
              supported_claims = []\<rparr>)]\<rparr>"

definition events5 :: "Event list" where
  "events5 = [chunks_event [web_chunk ''b'' ''B'' ''db''] None]"

definition state5_after :: session_state where
  "state5_after =
     empty_state
       \<lparr>url_to_short_id := Some [(''a'', ''src-2''), (''b'', ''src-2'')],
        sources := Some
          [(''src-2'', \<lparr>short_id = ''src-2'', title = ''B'', url = ''b'', domain = ''db'',
              supported_claims = []\<rparr>)]\<rparr>"

(*PROPERTIES*)

section \<open>Properties of the citation rewriter\<close>

lemma cite_no_match: "c \<noteq> CHR ''<'' \<Longrightarrow> re_match cite_pattern (c # cs) = None"
  by (simp add: cite_pattern_def cite_before_def lit_def)

lemma cite_no_match_nil: "re_match cite_pattern [] = None"
  by code_simp

lemma report6_first_marker:
  "re_match cite_pattern
     (''<cite source='' @ [CHR 0x22] @ ''src-1'' @ [CHR 0x22] @ ''/>, claim B<cite source=''
        @ [CHR 0x22] @ ''src-2'' @ [CHR 0x22] @ ''/>.'')
   = Some (marker_segs ''1'',
       '', claim B<cite source='' @ [CHR 0x22] @ ''src-2'' @ [CHR 0x22] @ ''/>.'')"
  by code_simp

lemma report6_second_marker:
  "re_match cite_pattern (''<cite source='' @ [CHR 0x22] @ ''src-2'' @ [CHR 0x22] @ ''/>.'')
   = Some (marker_segs ''2'', ''.'')"
  by code_simp

lemma marker_segs_group1:
  "cite_group1 (marker_segs ''1'') = ''src-1''"
  "cite_group1 (marker_segs ''2'') = ''src-2''"
  by code_simp+

lemma report6_cited:
  assumes "map_of srcs ''src-1'' = Some r1" "title r1 = ''T1''" "url r1 = ''u1''"
    and "map_of srcs ''src-2'' = Some r2" "title r2 = ''T2''" "url r2 = ''u2''"
  shows "re_sub cite_pattern (tag_replacer srcs) report6 = (rewritten6, [])"
  using assms
  by (simp add: report6_def rewritten6_def cite_no_match report6_first_marker[simplified]
      report6_second_marker[simplified] tag_replacer_def marker_segs_group1 cite_no_match_nil)

lemma rewritten6_normalised: "re_sub punct_pattern punct_group1 rewritten6 = (rewritten6, [])"
  by code_simp

text \<open>
  C6. With the report \<open>Claim A<cite source="src-1"/>, claim B<cite source="src-2"/>.\<close> in
  \<open>final_cited_report\<close> and a registry that maps \<open>src-1\<close> to a record with title \<open>T1\<close> and
  url \<open>u1\<close>, and \<open>src-2\<close> to one with title \<open>T2\<close> and url \<open>u2\<close>, the callback produces exactly
  \<open>Claim A [T1](u1), claim B [T2](u2).\<close>, stores it in \<open>final_report_with_citations\<close>,
  returns it as a single text part, and logs no warning.
\<close>

theorem citation_round_trip:
  assumes "final_cited_report st = Some report6" and "sources st = Some srcs"
    and "map_of srcs ''src-1'' = Some r1" and "title r1 = ''T1''" and "url r1 = ''u1''"
    and "map_of srcs ''src-2'' = Some r2" and "title r2 = ''T2''" and "url r2 = ''u2''"
  shows "citation_replacement_callback st =
           (st\<lparr>final_report_with_citations := Some ''Claim A [T1](u1), claim B [T2](u2).''\<rparr>,
            \<lparr>parts = [\<lparr>part_text = ''Claim A [T1](u1), claim B [T2](u2).''\<rparr>]\<rparr>,
            [])"
proof -
  have "re_sub cite_pattern (tag_replacer srcs) report6 = (rewritten6, [])"
    using assms(3-8) by (rule report6_cited)
  then show ?thesis
    using assms(1,2) rewritten6_normalised
    by (simp add: citation_replacement_callback_def rewritten6_def)
qed

theorem citation_round_trip_witness:
  "final_cited_report state6 = Some report6
   \<and> citation_replacement_callback state6 =
       (state6\<lparr>final_report_with_citations := Some ''Claim A [T1](u1), claim B [T2](u2).''\<rparr>,
        \<lparr>parts = [\<lparr>part_text = ''Claim A [T1](u1), claim B [T2](u2).''\<rparr>]\<rparr>,
        [])"
  using citation_round_trip [of state6 registry6
      "\<lparr>short_id = ''src-1'', title = ''T1'', url = ''u1'', domain = ''d1'', supported_claims = []\<rparr>"
      "\<lparr>short_id = ''src-2'', title = ''T2'', url = ''u2'', domain = ''d2'', supported_claims = []\<rparr>"]
  by (simp add: state6_def registry6_def)


subsection \<open>Matches do not reach across the start of a marker\<close>

lemma push_seg_extend: "push_seg seg (extend_rest y r) = extend_rest y (push_seg seg r)"
  by (simp add: push_seg_def extend_rest_def split: option.splits)

lemma grow_seg_extend: "grow_seg c (extend_rest y r) = extend_rest y (grow_seg c r)"
  by (simp add: grow_seg_def extend_rest_def split: option.splits list.splits)

lemma extend_rest_None: "extend_rest y r = None \<longleftrightarrow> r = None"
  by (simp add: extend_rest_def split: option.splits)

lemma extend_rest_case:
  "(case extend_rest y r of None \<Rightarrow> extend_rest y a | Some m \<Rightarrow> Some m)
     = extend_rest y (case r of None \<Rightarrow> a | Some m \<Rightarrow> Some m)"
  by (simp add: extend_rest_def split: option.splits)

lemma re_match_extend:
  "\<forall>(q, p) \<in> set items. \<not> p c0 \<Longrightarrow>
     re_match items (s @ c0 # x) = extend_rest (c0 # x) (re_match items s)"
proof (induction items s rule: re_match.induct)
  case (1 s)
  then show ?case by (simp add: extend_rest_def)
next
  case (2 p r)
  then show ?case by (simp add: extend_rest_def)
next
  case (3 p r c cs)
  then show ?case by (simp add: push_seg_extend) (simp add: extend_rest_def)
next
  case (4 p r)
  then show ?case by (simp add: push_seg_extend)
next
  case (5 p r c cs)
  then show ?case
    by (cases "push_seg [c] (re_match r cs)")
       (auto simp: push_seg_extend extend_rest_None,
        auto simp: extend_rest_def push_seg_def split: option.splits)
next
  case (6 p r)
  then show ?case by (simp add: push_seg_extend)
next
  case (7 p r c cs)
  then show ?case
    by (cases "grow_seg c (re_match ((Star, p) # r) cs)")
       (auto simp: push_seg_extend grow_seg_extend extend_rest_None,
        auto simp: extend_rest_def push_seg_def grow_seg_def split: option.splits list.splits)
next
  case (8 p r)
  then show ?case by (simp add: extend_rest_def)
next
  case (9 p r c cs)
  then show ?case by (simp add: grow_seg_extend) (simp add: extend_rest_def)
qed

lemma re_match_consumed:
  "re_match items s = Some (segs, rest) \<Longrightarrow> s = concat segs @ rest"
proof (induction items s arbitrary: segs rest rule: re_match.induct)
  case (1 s)
  then show ?case by simp
next
  case (2 p r)
  then show ?case by simp
next
  case (3 p r c cs)
  then show ?case by (auto simp: push_seg_def split: if_splits option.splits)
next
  case (4 p r)
  then show ?case by (auto simp: push_seg_def split: if_splits option.splits)
next
  case (5 p r c cs)
  then show ?case by (auto simp: push_seg_def split: if_splits option.splits)
next
  case (6 p r)
  then show ?case by (auto simp: push_seg_def split: if_splits option.splits)
next
  case (7 p r c cs)
  then show ?case by (auto simp: push_seg_def grow_seg_def split: if_splits option.splits list.splits)
next
  case (8 p r)
  then show ?case by simp
next
  case (9 p r c cs)
  then show ?case by (auto simp: push_seg_def grow_seg_def split: if_splits option.splits list.splits)
qed


lemma cite_pattern_head: "cite_pattern = (One, (\<lambda>x. x = CHR ''<'')) # tl cite_pattern"
  by (simp add: cite_pattern_def cite_before_def lit_def)

lemma cite_pattern_tail: "\<forall>(q, p) \<in> set (tl cite_pattern). \<not> p (CHR ''<'')"
  by (simp add: cite_pattern_def cite_before_def cite_group_def cite_behind_def lit_def
      is_space_def is_digit_def is_quote_def)

lemma cite_match_extend:
  "s \<noteq> [] \<Longrightarrow>
     re_match cite_pattern (s @ CHR ''<'' # x) = extend_rest (CHR ''<'' # x) (re_match cite_pattern s)"
proof (cases s)
  case Nil
  then show "s \<noteq> [] \<Longrightarrow> ?thesis" by simp
next
  case (Cons c cs)
  have "re_match ((One, (\<lambda>x. x = CHR ''<'')) # tl cite_pattern) (c # cs @ CHR ''<'' # x)
      = extend_rest (CHR ''<'' # x) (re_match ((One, (\<lambda>x. x = CHR ''<'')) # tl cite_pattern) (c # cs))"
    using re_match_extend [OF cite_pattern_tail, of cs x]
    by (simp add: push_seg_extend) (simp add: extend_rest_def)
  then show ?thesis
    using Cons cite_pattern_head by simp
qed

lemma cite_match_nonempty:
  assumes "re_match cite_pattern s = Some (segs, rest)"
  shows "length rest < length s"
proof (cases s)
  case Nil
  then show ?thesis using assms by (simp add: cite_no_match_nil)
next
  case (Cons c cs)
  then have "re_match ((One, (\<lambda>x. x = CHR ''<'')) # tl cite_pattern) (c # cs) = Some (segs, rest)"
    using assms cite_pattern_head by simp
  then obtain segs' where "re_match (tl cite_pattern) cs = Some (segs', rest)"
    by (auto simp: push_seg_def split: if_splits option.splits)
  then have "cs = concat segs' @ rest"
    by (rule re_match_consumed)
  then have "length rest \<le> length cs"
    by (metis length_append le_add2)
  then show ?thesis using Cons by simp
qed

lemma cite_sub_split:
  "re_sub cite_pattern repl (pre @ CHR ''<'' # x) =
     (fst (re_sub cite_pattern repl pre) @ fst (re_sub cite_pattern repl (CHR ''<'' # x)),
      snd (re_sub cite_pattern repl pre) @ snd (re_sub cite_pattern repl (CHR ''<'' # x)))"
proof (induction pre rule: length_induct)
  case (1 pre)
  show ?case
  proof (cases pre)
    case Nil
    then show ?thesis by (simp add: cite_no_match_nil)
  next
    case (Cons c cs)
    show ?thesis
    proof (cases "re_match cite_pattern (c # cs)")
      case None
      then have "re_match cite_pattern (c # cs @ CHR ''<'' # x) = None"
        using cite_match_extend [of "c # cs" x] by (simp add: extend_rest_def)
      moreover have "length cs < length pre" using Cons by simp
      ultimately show ?thesis
        using None Cons 1 by (simp add: split_beta)
    next
      case (Some m)
      obtain segs rest where m: "m = (segs, rest)" by (cases m)
      have ext: "re_match cite_pattern (c # cs @ CHR ''<'' # x) = Some (segs, rest @ CHR ''<'' # x)"
        using cite_match_extend [of "c # cs" x] Some m by (simp add: extend_rest_def)
      have "length rest < length (c # cs)"
        using cite_match_nonempty Some m by blast
      then have "length rest < length pre" "length rest < Suc (length cs)"
        using Cons by simp_all
      then show ?thesis
        using Some m ext Cons 1 by (simp add: split_beta)
    qed
  qed
qed


lemma cite_sub_at_marker:
  assumes "re_match cite_pattern (m @ post) = Some (segs, post)"
  shows "re_sub cite_pattern repl (m @ post) =
           (fst (repl segs) @ fst (re_sub cite_pattern repl post),
            snd (repl segs) @ snd (re_sub cite_pattern repl post))"
proof (cases "m @ post")
  case Nil
  then show ?thesis using assms by (simp add: cite_no_match_nil)
next
  case (Cons c cs)
  have "length post < length (m @ post)"
    using assms by (rule cite_match_nonempty)
  then have "length post < Suc (length cs)"
    using Cons by simp
  then show ?thesis
    using assms Cons by (simp add: split_beta)
qed

lemma cite_marker_shape:
  assumes "re_match cite_pattern (m @ post) = Some (segs, post)"
  shows "concat segs = m" and "\<exists>t. m = CHR ''<'' # t"
proof -
  have "m @ post = concat segs @ post"
    using assms by (rule re_match_consumed)
  then show m: "concat segs = m" by simp
  have "length post < length (m @ post)"
    using assms by (rule cite_match_nonempty)
  then obtain c t where ct: "m = c # t" by (cases m) auto
  then have "c = CHR ''<''"
    using assms cite_no_match [of c "t @ post"] by auto
  then show "\<exists>t. m = CHR ''<'' # t" using ct by simp
qed

text \<open>
  C7. Let the report be \<open>pre @ m @ post\<close>, where \<open>m\<close> is a citation marker (the pattern
  matches at its start and consumes exactly \<open>m\<close>) whose short identifier is not a key of
  the registry. Then the callback returns (it has no raising branch), the marker
  contributes the empty string, one warning naming the marker is logged between the
  warnings of \<open>pre\<close> and those of \<open>post\<close>, the markers of \<open>pre\<close> and of \<open>post\<close> are
  processed as they are on their own, and the whitespace-before-punctuation pass runs
  over the result, which is stored and returned.
\<close>

theorem unresolved_marker_removed:
  assumes report: "final_cited_report st = Some (pre @ m @ post)"
    and marker: "re_match cite_pattern (m @ post) = Some (segs, post)"
    and registry: "srcs = (case sources st of None \<Rightarrow> [] | Some d \<Rightarrow> d)"
    and absent: "map_of srcs (cite_group1 segs) = None"
  shows "citation_replacement_callback st =
           (let before = re_sub cite_pattern (tag_replacer srcs) pre;
                behind = re_sub cite_pattern (tag_replacer srcs) post;
                processed = fst (re_sub punct_pattern punct_group1 (fst before @ fst behind))
            in (st\<lparr>final_report_with_citations := Some processed\<rparr>,
                \<lparr>parts = [\<lparr>part_text = processed\<rparr>]\<rparr>,
                snd before @ [''Invalid citation tag found and removed: '' @ m] @ snd behind))"
proof -
  obtain t where t: "m = CHR ''<'' # t"
    using cite_marker_shape(2) [OF marker] by blast
  have repl: "tag_replacer srcs segs = ([], [''Invalid citation tag found and removed: '' @ m])"
    using absent cite_marker_shape(1) [OF marker] by (simp add: tag_replacer_def cite_group0_def)
  have "re_sub cite_pattern (tag_replacer srcs) (pre @ m @ post) =
          (fst (re_sub cite_pattern (tag_replacer srcs) pre)
             @ fst (re_sub cite_pattern (tag_replacer srcs) (m @ post)),
           snd (re_sub cite_pattern (tag_replacer srcs) pre)
             @ snd (re_sub cite_pattern (tag_replacer srcs) (m @ post)))"
    using cite_sub_split [of "tag_replacer srcs" pre "t @ post"] t by simp
  also have "re_sub cite_pattern (tag_replacer srcs) (m @ post) =
          (fst (re_sub cite_pattern (tag_replacer srcs) post),
           [''Invalid citation tag found and removed: '' @ m]
             @ snd (re_sub cite_pattern (tag_replacer srcs) post))"
    using cite_sub_at_marker [OF marker, of "tag_replacer srcs"] repl by simp
  finally show ?thesis
    using report registry
    by (simp add: citation_replacement_callback_def Let_def split_beta)
qed


theorem unresolved_marker_removed_witness:
  "re_match cite_pattern (marker7 @ post7) = Some (marker_segs ''99'', post7)
   \<and> map_of registry6 (cite_group1 (marker_segs ''99'')) = None
   \<and> citation_replacement_callback state7 =
       (state7\<lparr>final_report_with_citations := Some ''Claim A. More [T1](u1).''\<rparr>,
        \<lparr>parts = [\<lparr>part_text = ''Claim A. More [T1](u1).''\<rparr>]\<rparr>,
        [''Invalid citation tag found and removed: '' @ marker7])"
proof -
  have marker: "re_match cite_pattern (marker7 @ post7) = Some (marker_segs ''99'', post7)"
    by code_simp
  have absent: "map_of registry6 (cite_group1 (marker_segs ''99'')) = None"
    by code_simp
  have before: "re_sub cite_pattern (tag_replacer registry6) pre7 = (''Claim A '', [])"
    by code_simp
  have behind: "re_sub cite_pattern (tag_replacer registry6) post7 = ('' . More [T1](u1).'', [])"
    by code_simp
  have normalised:
    "re_sub punct_pattern punct_group1 (''Claim A '' @ '' . More [T1](u1).'')
       = (''Claim A. More [T1](u1).'', [])"
    by code_simp
  have report: "final_cited_report state7 = Some (pre7 @ marker7 @ post7)"
    by (simp add: state7_def)
  have registry: "registry6 = (case sources state7 of None \<Rightarrow> [] | Some d \<Rightarrow> d)"
    by (simp add: state7_def)
  have "citation_replacement_callback state7 =
       (state7\<lparr>final_report_with_citations := Some ''Claim A. More [T1](u1).''\<rparr>,
        \<lparr>parts = [\<lparr>part_text = ''Claim A. More [T1](u1).''\<rparr>]\<rparr>,
        [''Invalid citation tag found and removed: '' @ marker7])"
    by (simp only: unresolved_marker_removed [OF report marker registry absent] Let_def
        before behind normalised fst_conv snd_conv append_Nil append_Nil2)
  then show ?thesis using marker absent by simp
qed

section \<open>Properties of the escalation checker\<close>

text \<open>
  C8. On every invocation the checker yields exactly one event: when the
  \<open>research_evaluation\<close> slot holds a verdict whose grade is \<open>pass\<close>, an event whose
  actions carry \<open>escalate = True\<close>; when the slot is absent or the grade is anything else,
  a plain event with no escalate flag. The method is total: it has no raising branch.
\<close>

theorem escalation_checker_events:
  "fst (snd (run_async_impl name st)) =
     (if Option.bind (research_evaluation st) grade = Some ''pass''
      then [\<lparr>author = name, actions = \<lparr>escalate = Some True\<rparr>, grounding_metadata = None\<rparr>]
      else [\<lparr>author = name, actions = \<lparr>escalate = None\<rparr>, grounding_metadata = None\<rparr>])"
  by (simp add: run_async_impl_def verdict_truthy_def split: option.splits)

theorem escalation_checker_events_witness:
  "fst (snd (run_async_impl ''checker'' (state_with_verdict (Some verdict_pass)))) =
     [\<lparr>author = ''checker'', actions = \<lparr>escalate = Some True\<rparr>, grounding_metadata = None\<rparr>]
   \<and> fst (snd (run_async_impl ''checker'' (state_with_verdict (Some verdict_fail)))) =
     [\<lparr>author = ''checker'', actions = \<lparr>escalate = None\<rparr>, grounding_metadata = None\<rparr>]
   \<and> fst (snd (run_async_impl ''checker'' (state_with_verdict None))) =
     [\<lparr>author = ''checker'', actions = \<lparr>escalate = None\<rparr>, grounding_metadata = None\<rparr>]"
  using escalation_checker_events [of "''checker''" "state_with_verdict (Some verdict_pass)"]
    escalation_checker_events [of "''checker''" "state_with_verdict (Some verdict_fail)"]
    escalation_checker_events [of "''checker''" "state_with_verdict None"]
  by (simp add: state_with_verdict_def verdict_pass_def verdict_fail_def)

text \<open>
  C9. The session state after an invocation of the checker is the state before it: the
  checker reads \<open>research_evaluation\<close> and writes no slot.
\<close>

theorem escalation_checker_frame: "fst (run_async_impl name st) = st"
  by (simp add: run_async_impl_def split: option.splits)

section \<open>Properties of the source collector\<close>

subsection \<open>Identifiers and first-seen order\<close>

lemma decimal_value_str_nat: "decimal_value (str_nat n) = n"
proof (induction n rule: str_nat.induct)
  case (1 n)
  show ?case
  proof (cases "n < 10")
    case True
    then show ?thesis
      by (subst str_nat.simps) (simp add: decimal_value_def digit_char_def)
  next
    case False
    have "n mod 10 < 10" by simp
    then have d: "of_char (digit_char (n mod 10)) = 48 + n mod 10"
      unfolding digit_char_def by (simp add: of_char_of)  
    have "decimal_value (str_nat n) = 10 * decimal_value (str_nat (n div 10)) + n mod 10"
      using False d by (subst str_nat.simps) (simp add: decimal_value_def)
    then show ?thesis using 1 False by simp
  qed
qed

lemma src_id_inject: "src_id m = src_id n \<longleftrightarrow> m = n"
  by (metis decimal_value_str_nat src_id_def same_append_eq)

lemma update_fresh_key: "map_of al k = None \<Longrightarrow> AList.update k v al = al @ [(k, v)]"
  by (induction al) (auto split: if_splits)

lemma set_fresh_urls: "set (fresh_urls seen us) = set us - set seen"
  by (induction seen us rule: fresh_urls.induct) auto

lemma distinct_fresh_urls: "distinct (fresh_urls seen us)"
  by (induction seen us rule: fresh_urls.induct) (auto simp: set_fresh_urls)

lemma fresh_urls_append:
  "fresh_urls seen (us @ vs) = fresh_urls seen us @ fresh_urls (seen @ fresh_urls seen us) vs"
  by (induction seen us rule: fresh_urls.induct) auto

lemma fresh_urls_known: "set us \<subseteq> set seen \<Longrightarrow> fresh_urls seen us = []"
  by (induction seen us rule: fresh_urls.induct) auto

lemma fresh_urls_cong: "set seen = set seen' \<Longrightarrow> fresh_urls seen us = fresh_urls seen' us"
  by (induction seen us arbitrary: seen' rule: fresh_urls.induct) auto

lemma chunk_urls_simps:
  "chunk_urls [] = []"
  "chunk_urls (c # cs) = (case web c of None \<Rightarrow> [] | Some w \<Rightarrow> [uri w]) @ chunk_urls cs"
  "chunk_urls (cs @ ds) = chunk_urls cs @ chunk_urls ds"
  by (simp_all add: chunk_urls_def)

lemma map_of_None_keys: "map_of al k = None \<longleftrightarrow> k \<notin> set (map fst al)"
  by (simp add: map_of_eq_None_iff)

lemma upt_shift: "[n..<n + Suc k] = n # [Suc n..<Suc n + k]"
  by (subst upt_rec) simp

lemma extend_index_fresh:
  "u \<notin> set (map fst u2s) \<Longrightarrow>
     extend_index u2s n (u # us) = extend_index (u2s @ [(u, src_id n)]) (Suc n) us"
  unfolding extend_index_def Let_def
  by (simp only: fresh_urls.simps if_False length_Cons upt_shift map_append list.map fst_conv)
     simp

lemma extend_index_known:
  "u \<in> set (map fst u2s) \<Longrightarrow> extend_index u2s n (u # us) = extend_index u2s n us"
  by (simp add: extend_index_def)

lemma chunk_loop_index:
  "chunk_loop xs (u2s, srcs, n, ci) = (u2s', srcs', n', ci') \<Longrightarrow>
     u2s' = extend_index u2s n (chunk_urls (map snd xs))
     \<and> n' = n + length (fresh_urls (map fst u2s) (chunk_urls (map snd xs)))"
proof (induction xs arbitrary: u2s srcs n ci)
  case Nil
  then show ?case by (simp add: extend_index_def chunk_urls_simps)
next
  case (Cons x xs)
  obtain idx chunk where x: "x = (idx, chunk)" by (cases x)
  show ?case
  proof (cases "web chunk")
    case None
    then show ?thesis using Cons x by (simp add: chunk_urls_simps)
  next
    case (Some w)
    show ?thesis
    proof (cases "map_of u2s (uri w)")
      case None
      then have fresh: "uri w \<notin> set (map fst u2s)"
        by (simp add: map_of_None_keys)
      have "chunk_loop xs (u2s @ [(uri w, src_id n)],
               AList.update (src_id n)
                 \<lparr>short_id = src_id n,
                  title = (if web_title w \<noteq> web_domain w then web_title w else web_domain w),
                  url = uri w, domain = web_domain w, supported_claims = []\<rparr> srcs,
               Suc n, AList.update idx (src_id n) ci) = (u2s', srcs', n', ci')"
        using Cons.prems x Some None by (simp add: Let_def update_fresh_key)
      from Cons.IH [OF this] show ?thesis
        using x Some fresh
        by (simp add: extend_index_fresh chunk_urls_simps)
    next
      case (Some sid)
      then have known: "uri w \<in> set (map fst u2s)"
        using map_of_None_keys [of u2s "uri w"] by simp
      have "chunk_loop xs (u2s, srcs, n, AList.update idx sid ci) = (u2s', srcs', n', ci')"
        using Cons.prems x \<open>web chunk = Some w\<close> Some by (simp add: Let_def)
      from Cons.IH [OF this] show ?thesis
        using x \<open>web chunk = Some w\<close> known
        by (simp add: extend_index_known chunk_urls_simps)
    qed
  qed
qed

lemma chunk_loop_Cons: "chunk_loop (x # xs) a = chunk_loop xs (chunk_loop [x] a)"
proof -
  obtain idx chunk where x: "x = (idx, chunk)" by (cases x)
  obtain u2s srcs n ci where a: "a = (u2s, srcs, n, ci)" by (cases a)
  show ?thesis unfolding x a
    by (simp add: Let_def split: option.splits)
qed

lemma chunk_step:
  "chunk_loop [(idx, chunk)] (u2s, srcs, n, ci) =
     (case web chunk of
        None \<Rightarrow> (u2s, srcs, n, ci)
      | Some w \<Rightarrow>
          (case map_of u2s (uri w) of
             None \<Rightarrow> (u2s @ [(uri w, src_id n)], AList.update (src_id n) (new_record w n) srcs,
                       Suc n, AList.update idx (src_id n) ci)
           | Some sid \<Rightarrow> (u2s, srcs, n, AList.update idx sid ci)))"
  by (simp add: Let_def new_record_def update_fresh_key split: option.splits)

lemma snd_set_update: "snd ` set (AList.update k v al) \<subseteq> insert v (snd ` set al)"
  by (induction al) auto

lemma values_update_subset:
  "snd ` set al \<subseteq> A \<Longrightarrow> v \<in> A \<Longrightarrow> snd ` set (AList.update k v al) \<subseteq> A"
  using snd_set_update [of k v al] by blast

lemma chunk_step_inv:
  assumes "collector_inv u2s srcs n" and "snd ` set ci \<subseteq> fst ` set srcs"
    and "chunk_loop [x] (u2s, srcs, n, ci) = (u2s', srcs', n', ci')"
  shows "collector_inv u2s' srcs' n' \<and> snd ` set ci' \<subseteq> fst ` set srcs'
     \<and> (\<exists>added. u2s' = u2s @ added \<and> registry_pairs srcs' = registry_pairs srcs @ added)
     \<and> (\<forall>sid. claims_of srcs' sid = claims_of srcs sid)"
proof -
  obtain idx chunk where x: "x = (idx, chunk)" by (cases x)
  note step = assms(3) [unfolded x chunk_step]
  show ?thesis
  proof (cases "web chunk")
    case None
    then show ?thesis using assms(1,2) step by simp
  next
    case (Some w)
    show ?thesis
    proof (cases "map_of u2s (uri w)")
      case None
      have fresh: "map_of srcs (src_id n) = None"
        using assms(1) by (simp add: collector_inv_def map_of_eq_None_iff)
      have res: "u2s' = u2s @ [(uri w, src_id n)]" "srcs' = srcs @ [(src_id n, new_record w n)]"
        "n' = Suc n" "ci' = AList.update idx (src_id n) ci"
        using step Some None fresh by (simp_all add: update_fresh_key)
      have "collector_inv u2s' srcs' n'"
        using assms(1) unfolding res collector_inv_def
        by (auto simp: src_id_inject)
      moreover have "snd ` set ci' \<subseteq> fst ` set srcs'"
        unfolding res using assms(2) by (intro values_update_subset) auto
      moreover have "\<exists>added. u2s' = u2s @ added \<and> registry_pairs srcs' = registry_pairs srcs @ added"
        unfolding res by (simp add: registry_pairs_def new_record_def)
      moreover have "\<forall>sid. claims_of srcs' sid = claims_of srcs sid"
        using fresh unfolding res
        by (auto simp: claims_of_def new_record_def map_add_def split: option.splits)
      ultimately show ?thesis unfolding res by simp
    next
      case (Some sid)
      have res: "u2s' = u2s" "srcs' = srcs" "n' = n" "ci' = AList.update idx sid ci"
        using step \<open>web chunk = Some w\<close> Some by simp_all
      have "sid \<in> snd ` set u2s"
        using Some by (metis map_of_SomeD snd_conv image_eqI)
      then have "snd ` set ci' \<subseteq> fst ` set srcs'"
        unfolding res using assms(1,2) by (intro values_update_subset) (auto simp: collector_inv_def)
      then show ?thesis using assms(1) unfolding res by simp
    qed
  qed
qed

lemma chunk_loop_inv:
  assumes "collector_inv u2s srcs n" and "snd ` set ci \<subseteq> fst ` set srcs"
    and "chunk_loop xs (u2s, srcs, n, ci) = (u2s', srcs', n', ci')"
  shows "collector_inv u2s' srcs' n' \<and> snd ` set ci' \<subseteq> fst ` set srcs'
     \<and> (\<exists>added. u2s' = u2s @ added \<and> registry_pairs srcs' = registry_pairs srcs @ added)
     \<and> (\<forall>sid. claims_of srcs' sid = claims_of srcs sid)"
  using assms
proof (induction xs arbitrary: u2s srcs n ci)
  case Nil
  then show ?case by simp
next
  case (Cons x xs)
  obtain u1 s1 n1 c1 where one: "chunk_loop [x] (u2s, srcs, n, ci) = (u1, s1, n1, c1)"
    by (cases "chunk_loop [x] (u2s, srcs, n, ci)")
  have rest: "chunk_loop xs (u1, s1, n1, c1) = (u2s', srcs', n', ci')"
    using Cons.prems(3) one by (simp only: chunk_loop_Cons [of x xs])
  note a = chunk_step_inv [OF Cons.prems(1,2) one]
  note b = Cons.IH [OF a [THEN conjunct1] a [THEN conjunct2, THEN conjunct1] rest]
  from a b show ?case
    by (elim conjE exE) (intro conjI exI [where x = "_ @ _"], simp_all)
qed

lemma registry_pairs_update:
  "map_of srcs k = Some r \<Longrightarrow> url r' = url r \<Longrightarrow>
     registry_pairs (AList.update k r' srcs) = registry_pairs srcs"
  by (induction srcs) (auto simp: registry_pairs_def split: if_splits)

lemma keys_update_present:
  "map_of srcs k = Some r \<Longrightarrow> map fst (AList.update k r' srcs) = map fst srcs"
  by (induction srcs) (auto split: if_splits)

lemma claims_of_update:
  "claims_of (AList.update k r srcs) sid = (if sid = k then supported_claims r else claims_of srcs sid)"
  by (simp add: claims_of_def update_conv')

lemma claim_loop_result:
  "claim_loop ixs cs txt ci srcs = Inr srcs' \<Longrightarrow>
     map fst srcs' = map fst srcs \<and> registry_pairs srcs' = registry_pairs srcs
     \<and> (\<forall>sid. claims_of srcs' sid = claims_of srcs sid @ resolved_entries (map_of ci) cs txt ixs sid)"
proof (induction ixs arbitrary: srcs)
  case Nil
  then show ?case by (simp add: resolved_entries_def)
next
  case (Cons x ixs)
  obtain i idx where x: "x = (i, idx)" by (cases x)
  show ?case
  proof (cases "map_of ci idx")
    case None
    then have "claim_loop ixs cs txt ci srcs = Inr srcs'"
      using Cons.prems x by simp
    from Cons.IH [OF this] show ?thesis
      using None x by (simp add: resolved_entries_def)
  next
    case (Some sid)
    then obtain info where info: "map_of srcs sid = Some info"
      using Cons.prems x by (cases "map_of srcs sid") (simp_all add: Let_def)
    define srcs1 where "srcs1 = AList.update sid
        (info\<lparr>supported_claims := supported_claims info @ [claim_for cs txt i]\<rparr>) srcs"
    have "claim_loop ixs cs txt ci srcs1 = Inr srcs'"
      using Cons.prems x Some info by (simp add: Let_def srcs1_def claim_for_def)
    note ih = Cons.IH [OF this]
    have k: "map fst srcs1 = map fst srcs"
      unfolding srcs1_def using info by (rule keys_update_present)
    have p: "registry_pairs srcs1 = registry_pairs srcs"
      unfolding srcs1_def using info by (rule registry_pairs_update) simp
    have c: "claims_of srcs1 s = claims_of srcs s @ (if s = sid then [claim_for cs txt i] else [])" for s
      unfolding srcs1_def using info by (simp add: claims_of_update) (simp add: claims_of_def)
    show ?thesis
      using ih k p c Some x by (auto simp: resolved_entries_def)
  qed
qed

lemma claim_loop_returns:
  "snd ` set ci \<subseteq> fst ` set srcs \<Longrightarrow> \<exists>srcs'. claim_loop ixs cs txt ci srcs = Inr srcs'"
proof (induction ixs arbitrary: srcs)
  case Nil
  then show ?case by simp
next
  case (Cons x ixs)
  obtain i idx where x: "x = (i, idx)" by (cases x)
  show ?case
  proof (cases "map_of ci idx")
    case None
    then show ?thesis using Cons x by simp
  next
    case (Some sid)
    then have "sid \<in> fst ` set srcs"
      using Cons.prems by (metis map_of_SomeD snd_conv image_eqI subsetD)
    then obtain info where info: "map_of srcs sid = Some info"
      by (metis map_of_eq_None_iff not_None_eq)
    have "fst ` set (AList.update sid
        (info\<lparr>supported_claims := supported_claims info @ [claim_for cs txt i]\<rparr>) srcs) = fst ` set srcs"
      using keys_update_present [OF info] by (metis set_map)
    then show ?thesis
      using Cons x Some info by (simp add: Let_def claim_for_def)
  qed
qed

lemma process_support_result:
  "process_support ci sp srcs = Inr srcs' \<Longrightarrow>
     map fst srcs' = map fst srcs \<and> registry_pairs srcs' = registry_pairs srcs
     \<and> (\<forall>sid. claims_of srcs' sid = claims_of srcs sid @ support_entries (map_of ci) sp sid)"
  unfolding process_support_def support_entries_def Let_def
  by (rule claim_loop_result)

lemma process_support_returns:
  "snd ` set ci \<subseteq> fst ` set srcs \<Longrightarrow> \<exists>srcs'. process_support ci sp srcs = Inr srcs'"
  unfolding process_support_def Let_def
  by (rule claim_loop_returns)

lemma support_loop_result:
  "support_loop sps ci srcs = Inr srcs' \<Longrightarrow>
     map fst srcs' = map fst srcs \<and> registry_pairs srcs' = registry_pairs srcs
     \<and> (\<forall>sid. claims_of srcs' sid =
            claims_of srcs sid @ concat (map (\<lambda>sp. support_entries (map_of ci) sp sid) sps))"
proof (induction sps arbitrary: srcs)
  case Nil
  then show ?case by simp
next
  case (Cons sp sps)
  then obtain srcs1 where one: "process_support ci sp srcs = Inr srcs1"
    and rest: "support_loop sps ci srcs1 = Inr srcs'"
    by (auto split: sum.splits)
  note a = process_support_result [OF one]
  note b = Cons.IH [OF rest]
  from a b show ?case
    by simp
qed

lemma support_loop_returns:
  "snd ` set ci \<subseteq> fst ` set srcs \<Longrightarrow> \<exists>srcs'. support_loop sps ci srcs = Inr srcs'"
proof (induction sps arbitrary: srcs)
  case Nil
  then show ?case by simp
next
  case (Cons sp sps)
  obtain srcs1 where one: "process_support ci sp srcs = Inr srcs1"
    using process_support_returns [OF Cons.prems] by blast
  then have "map fst srcs1 = map fst srcs"
    using process_support_result by blast
  then have "fst ` set srcs1 = fst ` set srcs"
    by (metis set_map)
  then show ?case
    using Cons one by simp
qed

lemma chunk_loop_append: "chunk_loop (xs @ ys) a = chunk_loop ys (chunk_loop xs a)"
proof (induction xs arbitrary: a)
  case Nil
  then show ?case by simp
next
  case (Cons x xs)
  show ?case
    using Cons [of "chunk_loop [x] a"] chunk_loop_Cons [of x "xs @ ys" a] chunk_loop_Cons [of x xs a]
    by simp
qed

lemma enumerate_int_snoc: "enumerate_int (ys @ [c]) = enumerate_int ys @ [(int (length ys), c)]"
  by (simp add: enumerate_int_def)

lemma chunk_url_at_snoc:
  "chunk_url_at (ys @ [c]) k =
     (if k = int (length ys) then map_option uri (web c) else chunk_url_at ys k)"
  by (auto simp: chunk_url_at_def nth_append)

lemma chunk_url_at_length: "chunk_url_at ys (int (length ys)) = None"
  by (simp add: chunk_url_at_def)

lemma chunk_url_at_urls: "chunk_url_at chunks k = Some u \<Longrightarrow> u \<in> set (chunk_urls chunks)"
  by (auto simp: chunk_url_at_def chunk_urls_def split: if_splits option.splits
      intro!: bexI [where x = "chunks ! nat k"])

lemma chunks_info_lookup:
  "chunk_loop (enumerate_int chunks) (u2s, srcs, n, []) = (u2s', srcs', n', ci') \<Longrightarrow>
     (\<forall>k. map_of ci' k = (case chunk_url_at chunks k of None \<Rightarrow> None | Some u \<Rightarrow> map_of u2s' u))
     \<and> (\<forall>u \<in> set (chunk_urls chunks). map_of u2s' u \<noteq> None)"
proof (induction chunks arbitrary: u2s' srcs' n' ci' rule: rev_induct)
  case Nil
  then show ?case by (simp add: enumerate_int_def chunk_url_at_def chunk_urls_def)
next
  case (snoc c ys)
  obtain u1 s1 n1 c1 where one: "chunk_loop (enumerate_int ys) (u2s, srcs, n, []) = (u1, s1, n1, c1)"
    by (cases "chunk_loop (enumerate_int ys) (u2s, srcs, n, [])")
  note ih = snoc.IH [OF one]
  have last: "chunk_loop [(int (length ys), c)] (u1, s1, n1, c1) = (u2s', srcs', n', ci')"
    using snoc.prems one by (simp only: enumerate_int_snoc chunk_loop_append)
  note step = last [unfolded chunk_step]
  show ?case
  proof (cases "web c")
    case None
    then show ?thesis
      using step ih by (auto simp: chunk_url_at_snoc chunk_urls_simps chunk_url_at_length)
  next
    case (Some w)
    show ?thesis
    proof (cases "map_of u1 (uri w)")
      case None
      have res: "u2s' = u1 @ [(uri w, src_id n1)]" "ci' = AList.update (int (length ys)) (src_id n1) c1"
        using step Some None by simp_all
      have unseen: "chunk_url_at ys k \<noteq> Some (uri w)" for k
        using ih None chunk_url_at_urls [of ys k "uri w"] by fastforce
      show ?thesis
        unfolding res using ih Some None unseen
        by (auto simp: chunk_url_at_snoc chunk_urls_simps update_conv' map_add_def
            chunk_url_at_length split: option.splits)
    next
      case (Some sid)
      have res: "u2s' = u1" "ci' = AList.update (int (length ys)) sid c1"
        using step \<open>web c = Some w\<close> Some by simp_all
      show ?thesis
        unfolding res using ih \<open>web c = Some w\<close> Some
        by (auto simp: chunk_url_at_snoc chunk_urls_simps update_conv' chunk_url_at_length
            split: option.splits)
    qed
  qed
qed

lemma collector_inv_keys:
  "map fst srcs' = map fst srcs \<Longrightarrow> collector_inv u2s srcs' n = collector_inv u2s srcs n"
  unfolding collector_inv_def by (metis set_map)

lemma extend_index_Nil: "extend_index u2s n [] = u2s"
  by (simp add: extend_index_def)

lemma map_snd_enumerate_int: "map snd (enumerate_int xs) = xs"
  by (simp add: enumerate_int_def)

lemma process_event_skip:
  assumes "collector_inv u2s srcs n" and "event_chunks event = []" and "event_supports event = []"
  shows "event_post event (u2s, srcs, n) (u2s, srcs, n)"
  using assms
  by (simp add: event_post_def event_entries_def chunk_urls_simps extend_index_Nil)

lemma process_event_post:
  assumes inv: "collector_inv u2s srcs n"
  shows "\<exists>b. process_event event (u2s, srcs, n) = Inr b \<and> event_post event (u2s, srcs, n) b"
proof (cases "grounding_metadata event")
  case None
  then show ?thesis
    using process_event_skip [OF inv, of event]
    by (simp add: process_event_def event_chunks_def event_supports_def)
next
  case (Some gm)
  show ?thesis
  proof (cases "grounding_chunks gm")
    case None
    then show ?thesis
      using Some process_event_skip [OF inv, of event]
      by (simp add: process_event_def event_chunks_def event_supports_def)
  next
    case chunks: (Some chunks)
    show ?thesis
    proof (cases chunks)
      case Nil
      then show ?thesis
        using Some chunks process_event_skip [OF inv, of event]
        by (simp add: process_event_def event_chunks_def event_supports_def)
    next
      case (Cons c cs)
      have ec: "event_chunks event = chunks"
        using Some chunks by (simp add: event_chunks_def)
      obtain u1 s1 n1 ci where loop:
        "chunk_loop (enumerate_int chunks) (u2s, srcs, n, []) = (u1, s1, n1, ci)"
        by (cases "chunk_loop (enumerate_int chunks) (u2s, srcs, n, [])")
      have "snd ` set ([] :: (int \<times> string) list) \<subseteq> fst ` set srcs" by simp
      note a = chunk_loop_inv [OF inv this loop]
      note b = chunks_info_lookup [OF loop]
      note c = chunk_loop_index [OF loop, unfolded map_snd_enumerate_int]
      have f: "map_of ci = (\<lambda>k. case chunk_url_at chunks k of None \<Rightarrow> None | Some u \<Rightarrow> map_of u1 u)"
        using b by auto
      show ?thesis
      proof (cases "grounding_supports gm")
        case None
        then have "process_event event (u2s, srcs, n) = Inr (u1, s1, n1)"
          using Some chunks Cons loop by (simp add: process_event_def)
        moreover have es: "event_supports event = []"
          using Some chunks Cons None by (simp add: event_supports_def)
        have "event_post event (u2s, srcs, n) (u1, s1, n1)"
          unfolding event_post_def prod.case ec
          using a b c by (intro conjI) (simp_all add: event_entries_def es)
        ultimately show ?thesis by blast
      next
        case sps: (Some sps)
        have a1: "collector_inv u1 s1 n1" and a2: "snd ` set ci \<subseteq> fst ` set s1"
          and a3: "\<exists>added. u1 = u2s @ added \<and> registry_pairs s1 = registry_pairs srcs @ added"
          and a4: "\<forall>sid. claims_of s1 sid = claims_of srcs sid"
          using a by simp_all
        obtain s2 where s2: "support_loop sps ci s1 = Inr s2"
          using support_loop_returns [OF a2] by blast
        have d1: "map fst s2 = map fst s1" and d2: "registry_pairs s2 = registry_pairs s1"
          and d3: "\<forall>sid. claims_of s2 sid =
            claims_of s1 sid @ concat (map (\<lambda>sp. support_entries (map_of ci) sp sid) sps)"
          using support_loop_result [OF s2] by simp_all
        have run: "process_event event (u2s, srcs, n) = Inr (u1, s2, n1)"
          using Some chunks Cons loop sps s2 by (simp add: process_event_def)
        have es: "event_supports event = sps"
          using Some chunks Cons sps by (simp add: event_supports_def)
        have "collector_inv u1 s2 n1"
          using a1 collector_inv_keys [OF d1] by simp
        moreover have "\<forall>sid. claims_of s2 sid = claims_of srcs sid @ event_entries (map_of u1) event sid"
          unfolding event_entries_def ec es using a4 d3 f by simp
        moreover have "\<exists>added. u1 = u2s @ added \<and> registry_pairs s2 = registry_pairs srcs @ added"
          using a3 d2 by simp
        ultimately have "event_post event (u2s, srcs, n) (u1, s2, n1)"
          unfolding event_post_def prod.case ec
          using b c by (intro conjI) simp_all
        then show ?thesis
          using run by blast
      qed
    qed
  qed
qed

lemma event_entries_cong:
  assumes "\<forall>u \<in> set (chunk_urls (event_chunks event)). f u = g u"
  shows "event_entries f event sid = event_entries g event sid"
proof -
  have "(\<lambda>k. case chunk_url_at (event_chunks event) k of None \<Rightarrow> None | Some u \<Rightarrow> f u)
      = (\<lambda>k. case chunk_url_at (event_chunks event) k of None \<Rightarrow> None | Some u \<Rightarrow> g u)"
    using assms chunk_url_at_urls by (fastforce split: option.splits)
  then show ?thesis by (simp add: event_entries_def)
qed

lemma map_of_append_known: "map_of xs k \<noteq> None \<Longrightarrow> map_of (xs @ ys) k = map_of xs k"
  by (auto simp: map_add_def split: option.splits)

lemma map_fst_extend_index:
  "map fst (extend_index u2s n us) = map fst u2s @ fresh_urls (map fst u2s) us"
  by (simp add: extend_index_def Let_def)

lemma extend_index_append:
  "extend_index (extend_index u2s n us) (n + length (fresh_urls (map fst u2s) us)) vs
     = extend_index u2s n (us @ vs)"
proof -
  define new where "new = fresh_urls (map fst u2s) us"
  define new' where "new' = fresh_urls (map fst u2s @ new) vs"
  have "[n..<n + (length new + length new')] = [n..<n + length new] @ [n + length new..<n + length new + length new']"
    by (metis upt_add_eq_append le_add1 add.assoc)
  then show ?thesis
    unfolding extend_index_def Let_def fresh_urls_append
    by (simp add: new_def [symmetric] new'_def [symmetric])
qed

lemma all_urls_Cons: "all_urls (e # es) = chunk_urls (event_chunks e) @ all_urls es"
  by (simp add: all_urls_def)

lemma event_loop_post:
  assumes "collector_inv u2s srcs n"
  shows "\<exists>b. event_loop events (u2s, srcs, n) = Inr b \<and> loop_post events (u2s, srcs, n) b"
  using assms
proof (induction events arbitrary: u2s srcs n)
  case Nil
  then show ?case
    by (simp add: loop_post_def all_urls_def extend_index_Nil)
next
  case (Cons e es)
  obtain u1 s1 n1 where one: "process_event e (u2s, srcs, n) = Inr (u1, s1, n1)"
    and post1: "event_post e (u2s, srcs, n) (u1, s1, n1)"
    using process_event_post [OF Cons.prems, of e] by (metis prod_cases3)
  have a1: "collector_inv u1 s1 n1"
    and a2: "\<exists>added. u1 = u2s @ added \<and> registry_pairs s1 = registry_pairs srcs @ added"
    and a3: "\<forall>sid. claims_of s1 sid = claims_of srcs sid @ event_entries (map_of u1) e sid"
    and a4: "u1 = extend_index u2s n (chunk_urls (event_chunks e))"
    and a5: "n1 = n + length (fresh_urls (map fst u2s) (chunk_urls (event_chunks e)))"
    and a6: "\<forall>u \<in> set (chunk_urls (event_chunks e)). map_of u1 u \<noteq> None"
    using post1 unfolding event_post_def prod.case by blast+
  obtain u2 s2 n2 where rest: "event_loop es (u1, s1, n1) = Inr (u2, s2, n2)"
    and post2: "loop_post es (u1, s1, n1) (u2, s2, n2)"
    using Cons.IH [OF a1] by (metis prod_cases3)
  have b1: "collector_inv u2 s2 n2"
    and b2: "\<exists>added. u2 = u1 @ added \<and> registry_pairs s2 = registry_pairs s1 @ added"
    and b3: "\<forall>sid. claims_of s2 sid =
               claims_of s1 sid @ concat (map (\<lambda>e. event_entries (map_of u2) e sid) es)"
    and b4: "u2 = extend_index u1 n1 (all_urls es)"
    and b5: "n2 = n1 + length (fresh_urls (map fst u1) (all_urls es))"
    and b6: "\<forall>u \<in> set (all_urls es). map_of u2 u \<noteq> None"
    using post2 unfolding loop_post_def prod.case by blast+
  have run: "event_loop (e # es) (u2s, srcs, n) = Inr (u2, s2, n2)"
    using one rest by simp
  have same: "\<forall>u \<in> set (chunk_urls (event_chunks e)). map_of u1 u = map_of u2 u"
    using a6 b2 map_of_append_known by fastforce
  have c2: "\<exists>added. u2 = u2s @ added \<and> registry_pairs s2 = registry_pairs srcs @ added"
    using a2 b2 by auto
  have c3: "\<forall>sid. claims_of s2 sid =
               claims_of srcs sid @ concat (map (\<lambda>e. event_entries (map_of u2) e sid) (e # es))"
    using a3 b3 event_entries_cong [OF same] by simp
  have c4: "u2 = extend_index u2s n (all_urls (e # es))"
    unfolding b4 a4 a5 all_urls_Cons by (rule extend_index_append)
  have c5: "n2 = n + length (fresh_urls (map fst u2s) (all_urls (e # es)))"
    unfolding b5 a5 a4 all_urls_Cons by (simp add: fresh_urls_append map_fst_extend_index)
  have c6: "\<forall>u \<in> set (all_urls (e # es)). map_of u2 u \<noteq> None"
    using a6 b6 same by (auto simp: all_urls_Cons)
  have "loop_post (e # es) (u2s, srcs, n) (u2, s2, n2)"
    unfolding loop_post_def prod.case using b1 c2 c3 c4 c5 c6 by (intro conjI)
  then show ?case using run by blast
qed

subsection \<open>Claims appended by one grounding support\<close>

text \<open>
  C3. Processing one grounding-support annotation, with every identifier of the chunk map
  a key of the registry, returns, and appends to the record of each short identifier one
  claim entry per position \<open>i\<close> of the chunk-index list whose chunk index resolves to that
  identifier, in order. The entry's confidence is the \<open>i\<close>-th confidence score when
  \<open>i\<close> is below the length of the confidence list, and 0.5 otherwise; an absent
  confidence list is the empty one.
\<close>

theorem support_confidence:
  assumes keys: "snd ` set chunks_info \<subseteq> fst ` set srcs"
    and cs: "cs = (case confidence_scores support of None \<Rightarrow> [] | Some l \<Rightarrow> l)"
    and ixs: "chunk_indices = (case grounding_chunk_indices support of None \<Rightarrow> [] | Some l \<Rightarrow> l)"
    and seg: "txt = (case segment support of None \<Rightarrow> [] | Some s \<Rightarrow> seg_text s)"
  shows "\<exists>srcs'. process_support chunks_info support srcs = Inr srcs'
     \<and> (\<forall>sid. claims_of srcs' sid =
            claims_of srcs sid @
            map (\<lambda>(i, chunk_idx).
                   \<lparr>text_segment = txt, confidence = (if i < length cs then cs ! i else 0.5)\<rparr>)
              (filter (\<lambda>(i, chunk_idx). map_of chunks_info chunk_idx = Some sid)
                 (zip [0..<length chunk_indices] chunk_indices)))"
proof -
  obtain srcs' where run: "process_support chunks_info support srcs = Inr srcs'"
    using process_support_returns [OF keys] by blast
  have "\<forall>sid. claims_of srcs' sid = claims_of srcs sid @ support_entries (map_of chunks_info) support sid"
    using process_support_result [OF run] by simp
  then show ?thesis
    using run cs ixs seg
    by (simp add: support_entries_def resolved_entries_def claim_for_def Let_def)
qed

theorem support_confidence_witness:
  "snd ` set chunks_info3 \<subseteq> fst ` set registry6
   \<and> (\<exists>srcs'. process_support chunks_info3 support3 registry6 = Inr srcs'
        \<and> claims_of srcs' ''src-1'' = [\<lparr>text_segment = ''the sky is blue'', confidence = 0.9\<rparr>]
        \<and> claims_of srcs' ''src-2'' = [\<lparr>text_segment = ''the sky is blue'', confidence = 0.5\<rparr>])"
proof -
  have keys: "snd ` set chunks_info3 \<subseteq> fst ` set registry6"
    by (simp add: chunks_info3_def registry6_def)
  have none: "claims_of registry6 sid = []" for sid
    by (simp add: claims_of_def registry6_def)
  show ?thesis
    using keys support_confidence [OF keys refl refl refl, of support3]
    by (auto simp: none support3_def chunks_info3_def)
qed

subsection \<open>Chunk indices are resolved within one event\<close>

text \<open>
  C4. Whatever loop state the earlier events have left (it satisfies the loop invariant
  \<open>collector_inv\<close>), processing an event returns, and the claims it appends are those of
  its supports with each chunk index resolved through the event's own chunk list: index
  \<open>k\<close> stands for the short identifier of the URL of the event's chunk at position \<open>k\<close>,
  and an index that is not the position of a web chunk of this event is skipped.
\<close>

theorem chunk_indices_scoped_per_event:
  assumes "collector_inv u2s srcs n"
  shows "\<exists>u2s' srcs' n'. process_event event (u2s, srcs, n) = Inr (u2s', srcs', n')
     \<and> (\<forall>sid. claims_of srcs' sid =
            claims_of srcs sid @
            concat (map (\<lambda>sp. support_entries
                           (\<lambda>chunk_idx. case chunk_url_at (event_chunks event) chunk_idx of
                              None \<Rightarrow> None | Some u \<Rightarrow> map_of u2s' u)
                           sp sid)
                      (event_supports event)))"
proof -
  obtain b where run: "process_event event (u2s, srcs, n) = Inr b"
    and post: "event_post event (u2s, srcs, n) b"
    using process_event_post [OF assms] by blast
  obtain u2s' srcs' n' where b: "b = (u2s', srcs', n')" by (cases b)
  have "\<forall>sid. claims_of srcs' sid = claims_of srcs sid @ event_entries (map_of u2s') event sid"
    using post unfolding b event_post_def prod.case by blast
  then show ?thesis
    using run b by (simp add: event_entries_def)
qed

lemma src_id_1_2: "src_id 1 = ''src-1''" "src_id 2 = ''src-2''"
  by code_simp+

theorem chunk_indices_scoped_per_event_witness:
  "collector_inv index4 registry6 3
   \<and> process_event event4 (index4, registry6, 3) = Inr (index4, registry4, 3)
   \<and> claims_of registry4 ''src-2'' = [\<lparr>text_segment = ''grass is green'', confidence = 0.5\<rparr>]
   \<and> claims_of registry4 ''src-1'' = []"
proof -
  have inv: "collector_inv index4 registry6 3"
    unfolding collector_inv_def index4_def registry6_def
    using src_id_inject [of _ 1] src_id_inject [of _ 2]
    by (auto simp: src_id_1_2 [symmetric])
  have none: "claims_of registry6 sid = []" for sid
    by (simp add: claims_of_def registry6_def)
  have chunks: "event_chunks event4 = [\<lparr>web = Some \<lparr>uri = ''u2'', web_title = ''T2'', web_domain = ''d2''\<rparr>\<rparr>]"
    by (simp add: event_chunks_def event4_def)
  have sps: "event_supports event4 = [\<lparr>segment = Some \<lparr>seg_text = ''grass is green''\<rparr>,
             grounding_chunk_indices = Some [0, 1], confidence_scores = None\<rparr>]"
    by (simp add: event_supports_def event4_def)
  have run: "process_event event4 (index4, registry6, 3) = Inr (index4, registry4, 3)"
    by (simp add: process_event_def event4_def enumerate_int_def index4_def registry6_def
        registry4_def process_support_def Let_def)
  show ?thesis
    using inv chunk_indices_scoped_per_event [OF inv, of event4] run
    by (auto simp: none chunks sps support_entries_def resolved_entries_def claim_for_def
        chunk_url_at_def index4_def)
qed

subsection \<open>The callback as a whole\<close>

lemma snd_registry_pairs: "map snd (registry_pairs srcs) = map fst srcs"
  by (induction srcs) (auto simp: registry_pairs_def)

lemma well_formed_inv:
  assumes "well_formed st"
  shows "collector_inv (index_of st) (registry_of st) (Suc (length (index_of st)))"
proof -
  have keys: "map fst (registry_of st) = map src_id [1..<Suc (length (index_of st))]"
    using assms snd_registry_pairs [of "registry_of st"] by (simp add: well_formed_def)
  have "snd ` set (index_of st) \<subseteq> fst ` set (registry_of st)"
    using assms keys by (metis well_formed_def set_map subset_refl)
  moreover have "src_id k \<notin> fst ` set (registry_of st)" if "Suc (length (index_of st)) \<le> k" for k
  proof
    assume "src_id k \<in> fst ` set (registry_of st)"
    then have "src_id k \<in> set (map src_id [1..<Suc (length (index_of st))])"
      using keys by (metis set_map)
    then show False using that by (auto simp: src_id_inject)
  qed
  ultimately show ?thesis by (simp add: collector_inv_def)
qed

lemma length_extend_index:
  "length (extend_index u2s n us) = length u2s + length (fresh_urls (map fst u2s) us)"
  by (simp add: extend_index_def Let_def)

lemma callback_post:
  assumes "collector_inv (index_of st) (registry_of st) (Suc (length (index_of st)))"
  shows "\<exists>st'. collect_research_sources_callback events st = Inr st'
     \<and> st' = st\<lparr>url_to_short_id := Some (index_of st'), sources := Some (registry_of st')\<rparr>
     \<and> loop_post events (index_of st, registry_of st, Suc (length (index_of st)))
          (index_of st', registry_of st', Suc (length (index_of st')))"
proof -
  obtain b where run: "event_loop events (index_of st, registry_of st, Suc (length (index_of st))) = Inr b"
    and post: "loop_post events (index_of st, registry_of st, Suc (length (index_of st))) b"
    using event_loop_post [OF assms] by blast
  obtain u2s' srcs' n' where b: "b = (u2s', srcs', n')" by (cases b)
  have "u2s' = extend_index (index_of st) (Suc (length (index_of st))) (all_urls events)"
    and "n' = Suc (length (index_of st)) + length (fresh_urls (map fst (index_of st)) (all_urls events))"
    using post unfolding b loop_post_def prod.case by blast+
  then have n': "n' = Suc (length u2s')"
    by (simp add: length_extend_index)
  define st' where "st' = st\<lparr>url_to_short_id := Some u2s', sources := Some srcs'\<rparr>"
  have "collect_research_sources_callback events st = Inr st'"
    using run b
    by (simp add: collect_research_sources_callback_def index_of_def registry_of_def st'_def Let_def)
  moreover have "index_of st' = u2s'" "registry_of st' = srcs'"
    by (simp_all add: st'_def index_of_def registry_of_def)
  ultimately show ?thesis
    using post b n' st'_def by auto
qed

lemma all_urls_take_subset: "set (all_urls (take k events)) \<subseteq> set (all_urls events)"
  unfolding all_urls_def by (auto dest: in_set_takeD)

lemma extend_index_all_known: "set us \<subseteq> set (map fst u2s) \<Longrightarrow> extend_index u2s n us = u2s"
  by (simp add: extend_index_def fresh_urls_known)

lemma length_fresh_urls_card: "length (fresh_urls [] us) = card (set us)"
  using distinct_card [OF distinct_fresh_urls, of "[]" us] by (simp add: set_fresh_urls)

lemma loop_post_index:
  assumes "loop_post events (u2s, srcs, n) (u2s', srcs', n')"
  shows "u2s' = extend_index u2s n (all_urls events)"
    and "set (all_urls events) \<subseteq> set (map fst u2s')"
    and "collector_inv u2s' srcs' n'"
proof -
  show "u2s' = extend_index u2s n (all_urls events)" and "collector_inv u2s' srcs' n'"
    using assms unfolding loop_post_def prod.case by blast+
  have "\<forall>u \<in> set (all_urls events). map_of u2s' u \<noteq> None"
    using assms unfolding loop_post_def prod.case by blast
  then show "set (all_urls events) \<subseteq> set (map fst u2s')"
    by (auto simp: map_of_eq_None_iff)
qed

text \<open>
  C2. A run from a well-formed state returns; it leaves the entries of the index as they
  are and appends behind them the URLs not yet indexed, in the order of their first
  occurrence in the events, numbered on from the size of the index. Started from the
  empty index, the index is then the N distinct URLs in first-seen order under \<open>src-1\<close> to
  \<open>src-N\<close>. A further run over any prefix of the same events returns and leaves the
  index as it is.
\<close>

theorem identifiers_in_first_seen_order:
  assumes wf: "well_formed st"
    and new: "new = fresh_urls (map fst (index_of st)) (all_urls events)"
  shows "\<exists>st'. collect_research_sources_callback events st = Inr st'
     \<and> index_of st' =
         index_of st @
         zip new (map src_id [Suc (length (index_of st))..<Suc (length (index_of st)) + length new])
     \<and> (index_of st = [] \<longrightarrow>
          index_of st' =
            zip (fresh_urls [] (all_urls events)) (map src_id [1..<Suc (card (set (all_urls events)))]))
     \<and> (\<forall>k. \<exists>st''. collect_research_sources_callback (take k events) st' = Inr st''
            \<and> index_of st'' = index_of st')"
proof -
  obtain st' where run: "collect_research_sources_callback events st = Inr st'"
    and post: "loop_post events (index_of st, registry_of st, Suc (length (index_of st)))
          (index_of st', registry_of st', Suc (length (index_of st')))"
    using callback_post [OF well_formed_inv [OF wf]] by blast
  note p = loop_post_index [OF post]
  have idx: "index_of st' =
         index_of st @
         zip new (map src_id [Suc (length (index_of st))..<Suc (length (index_of st)) + length new])"
    using p(1) new by (simp add: extend_index_def Let_def)
  have empty: "index_of st' =
      zip (fresh_urls [] (all_urls events)) (map src_id [1..<Suc (card (set (all_urls events)))])"
    if "index_of st = []"
    using idx new that by (simp add: length_fresh_urls_card)
  have again: "\<exists>st''. collect_research_sources_callback (take k events) st' = Inr st''
            \<and> index_of st'' = index_of st'" for k
  proof -
    obtain st'' where run2: "collect_research_sources_callback (take k events) st' = Inr st''"
      and post2: "loop_post (take k events) (index_of st', registry_of st', Suc (length (index_of st')))
          (index_of st'', registry_of st'', Suc (length (index_of st'')))"
      using callback_post [OF p(3)] by blast
    have "set (all_urls (take k events)) \<subseteq> set (map fst (index_of st'))"
      using all_urls_take_subset p(2) by blast
    then have "index_of st'' = index_of st'"
      using loop_post_index(1) [OF post2] by (simp add: extend_index_all_known)
    then show ?thesis using run2 by blast
  qed
  show ?thesis
    using run idx empty again by blast
qed

lemma well_formed_empty: "well_formed empty_state"
  by (simp add: well_formed_def empty_state_def index_of_def registry_of_def registry_pairs_def)

lemma src_id_values:
  "src_id (Suc 0) = ''src-1''" "src_id 2 = ''src-2''" "src_id 3 = ''src-3''"
  by code_simp+

lemma all_urls_events2: "all_urls events2 = [''u1'', ''u2'', ''u1'', ''u3'', ''u2'']"
  by (simp add: all_urls_def events2_def chunks_event_def web_chunk_def event_chunks_def chunk_urls_def)

theorem identifiers_in_first_seen_order_witness:
  "well_formed empty_state
   \<and> (\<exists>st'. collect_research_sources_callback events2 empty_state = Inr st'
        \<and> index_of st' = [(''u1'', ''src-1''), (''u2'', ''src-2''), (''u3'', ''src-3'')]
        \<and> (\<exists>st''. collect_research_sources_callback (take 1 events2) st' = Inr st''
              \<and> index_of st'' = index_of st'))"
proof -
  have "index_of empty_state = []"
    by (simp add: index_of_def empty_state_def)
  moreover have "card (set (all_urls events2)) = 3"
    using length_fresh_urls_card [of "all_urls events2", symmetric] by (simp add: all_urls_events2)
  moreover have "fresh_urls [] (all_urls events2) = [''u1'', ''u2'', ''u3'']"
    by (simp add: all_urls_events2)
  moreover have "[1..<Suc 3] = [Suc 0, 2, 3]"
    by (simp add: upt_rec)
  ultimately show ?thesis
    using well_formed_empty identifiers_in_first_seen_order [OF well_formed_empty refl, of events2]
    by (auto simp: src_id_values)
qed

lemma map_snd_extend_index:
  "map snd (extend_index u2s n us) =
     map snd u2s @ map src_id [n..<n + length (fresh_urls (map fst u2s) us)]"
  by (simp add: extend_index_def Let_def)

lemma distinct_extend_index:
  "distinct (map fst u2s) \<Longrightarrow> distinct (map fst (extend_index u2s n us))"
  by (auto simp: map_fst_extend_index distinct_fresh_urls set_fresh_urls)

lemma well_formed_preserved:
  assumes wf: "well_formed st" and run: "collect_research_sources_callback events st = Inr st'"
  shows "well_formed st'"
proof -
  obtain st1 where run1: "collect_research_sources_callback events st = Inr st1"
    and post: "loop_post events (index_of st, registry_of st, Suc (length (index_of st)))
          (index_of st1, registry_of st1, Suc (length (index_of st1)))"
    using callback_post [OF well_formed_inv [OF wf]] by blast
  have st1: "st1 = st'" using run run1 by simp
  have ext: "index_of st' = extend_index (index_of st) (Suc (length (index_of st))) (all_urls events)"
    using loop_post_index(1) [OF post] st1 by simp
  have "\<exists>added. index_of st' = index_of st @ added
      \<and> registry_pairs (registry_of st') = registry_pairs (registry_of st) @ added"
    using post unfolding loop_post_def prod.case st1 by blast
  then have pairs: "registry_pairs (registry_of st') = index_of st'"
    using wf by (auto simp: well_formed_def)
  have dist: "distinct (map fst (index_of st'))"
    unfolding ext using wf by (intro distinct_extend_index) (simp add: well_formed_def)
  define m where "m = length (fresh_urls (map fst (index_of st)) (all_urls events))"
  have len: "length (index_of st') = length (index_of st) + m"
    unfolding ext m_def by (rule length_extend_index)
  have "[1..<Suc (length (index_of st) + m)] =
      [1..<Suc (length (index_of st))] @ [Suc (length (index_of st))..<Suc (length (index_of st)) + m]"
    using upt_add_eq_append [of 1 "Suc (length (index_of st))" m] by simp
  then have "map snd (index_of st') = map src_id [1..<Suc (length (index_of st'))]"
    unfolding len using wf unfolding ext map_snd_extend_index m_def [symmetric]
    by (simp add: well_formed_def)
  then show ?thesis
    using pairs dist by (simp add: well_formed_def)
qed

lemma single_record_for_url:
  "distinct (map fst (registry_pairs srcs)) \<Longrightarrow> map_of (registry_pairs srcs) u = Some sid \<Longrightarrow>
     \<exists>r. filter (\<lambda>(k, r). url r = u) srcs = [(sid, r)]"
proof (induction srcs)
  case Nil
  then show ?case by (simp add: registry_pairs_def)
next
  case (Cons x srcs)
  obtain k r where x: "x = (k, r)" by (cases x)
  have pairs: "registry_pairs (x # srcs) = (url r, k) # registry_pairs srcs"
    by (simp add: registry_pairs_def x)
  show ?case
  proof (cases "url r = u")
    case True
    then have "u \<notin> set (map fst (registry_pairs srcs))"
      using Cons.prems(1) pairs by auto
    then have "filter (\<lambda>(k, r). url r = u) srcs = []"
      by (force simp: registry_pairs_def filter_empty_conv)
    then show ?thesis
      using True Cons.prems(2) pairs x by simp
  next
    case False
    then show ?thesis
      using Cons pairs x by simp
  qed
qed

lemma fresh_urls_first_occurrence:
  assumes "u \<notin> set a" and "u \<notin> set seen"
  shows "fresh_urls seen (a @ u # b) = fresh_urls seen a @ u # fresh_urls (seen @ fresh_urls seen a @ [u]) b"
    and "length (fresh_urls seen a) = card (set a - set seen)"
proof -
  have "u \<notin> set (seen @ fresh_urls seen a)"
    using assms by (simp add: set_fresh_urls)
  then show "fresh_urls seen (a @ u # b) =
      fresh_urls seen a @ u # fresh_urls (seen @ fresh_urls seen a @ [u]) b"
    by (simp add: fresh_urls_append)
  show "length (fresh_urls seen a) = card (set a - set seen)"
    using distinct_card [OF distinct_fresh_urls, of seen a] by (simp add: set_fresh_urls)
qed

lemma extend_index_lookup_known:
  "map_of u2s u = Some s \<Longrightarrow> map_of (extend_index u2s n us) u = Some s"
  by (simp add: extend_index_def Let_def map_add_def)

lemma extend_index_lookup_new:
  assumes "map_of u2s u = None" and "us = a @ u # b" and "u \<notin> set a"
  shows "map_of (extend_index u2s n us) u = Some (src_id (n + card (set a - set (map fst u2s))))"
proof -
  define new where "new = fresh_urls (map fst u2s) us"
  define p where "p = length (fresh_urls (map fst u2s) a)"
  have unseen: "u \<notin> set (map fst u2s)"
    using assms(1) by (simp add: map_of_eq_None_iff)
  note f1 = fresh_urls_first_occurrence(1) [OF assms(3) unseen, of b]
  note f2 = fresh_urls_first_occurrence(2) [OF assms(3) unseen]
  have new_eq: "new = fresh_urls (map fst u2s) a @ u # fresh_urls (map fst u2s @ fresh_urls (map fst u2s) a @ [u]) b"
    unfolding new_def assms(2) by (rule f1)
  then have p: "p < length new" "new ! p = u"
    by (simp_all add: p_def nth_append)
  have "map_of (zip new (map src_id [n..<n + length new])) (new ! p) = Some (map src_id [n..<n + length new] ! p)"
    using p(1) by (intro map_of_zip_nth) (simp_all add: new_def distinct_fresh_urls)
  then have "map_of (zip new (map src_id [n..<n + length new])) u = Some (src_id (n + p))"
    using p by simp
  then show ?thesis
    using assms(1) f2 unfolding extend_index_def Let_def new_def [symmetric] p_def
    by (simp add: map_add_def)
qed

text \<open>
  C1. Let a URL \<open>u\<close> occur among the grounding chunks of the events, in event order, first
  behind the URLs \<open>a\<close> (and any number of times later, in \<open>b\<close>). A run from a well-formed
  state returns; afterwards the registry holds exactly one record whose url is \<open>u\<close>, it
  is stored under the short identifier the index gives for \<open>u\<close>, and that identifier is
  the one fixed at the first occurrence: the one \<open>u\<close> had before the run, or else the next
  number behind the index and the new URLs of \<open>a\<close>. Later occurrences change nothing.
\<close>

theorem one_record_per_url:
  assumes wf: "well_formed st" and occ: "all_urls events = a @ u # b" and first: "u \<notin> set a"
  shows "\<exists>st' sid r. collect_research_sources_callback events st = Inr st'
     \<and> map_of (index_of st') u = Some sid
     \<and> filter (\<lambda>(k, r). url r = u) (registry_of st') = [(sid, r)]
     \<and> sid = (case map_of (index_of st) u of
                Some s \<Rightarrow> s
              | None \<Rightarrow> src_id (Suc (length (index_of st))
                                 + card (set a - set (map fst (index_of st)))))"
proof -
  obtain st' where run: "collect_research_sources_callback events st = Inr st'"
    and post: "loop_post events (index_of st, registry_of st, Suc (length (index_of st)))
          (index_of st', registry_of st', Suc (length (index_of st')))"
    using callback_post [OF well_formed_inv [OF wf]] by blast
  have ext: "index_of st' = extend_index (index_of st) (Suc (length (index_of st))) (all_urls events)"
    using loop_post_index(1) [OF post] by simp
  define sid where "sid = (case map_of (index_of st) u of
                Some s \<Rightarrow> s
              | None \<Rightarrow> src_id (Suc (length (index_of st))
                                 + card (set a - set (map fst (index_of st)))))"
  have look: "map_of (index_of st') u = Some sid"
  proof (cases "map_of (index_of st) u")
    case None
    then show ?thesis
      unfolding ext sid_def using extend_index_lookup_new [OF None occ first] by simp
  next
    case (Some s)
    then show ?thesis
      unfolding ext sid_def using extend_index_lookup_known [OF Some] by simp
  qed
  have wf': "well_formed st'"
    using wf run by (rule well_formed_preserved)
  then have "distinct (map fst (registry_pairs (registry_of st')))"
    and "map_of (registry_pairs (registry_of st')) u = Some sid"
    using look by (simp_all add: well_formed_def)
  then obtain r where "filter (\<lambda>(k, r). url r = u) (registry_of st') = [(sid, r)]"
    using single_record_for_url by blast
  then show ?thesis
    using run look sid_def by blast
qed

theorem one_record_per_url_witness:
  "well_formed empty_state
   \<and> all_urls events2 = [''u1''] @ ''u2'' # [''u1'', ''u3'', ''u2'']
   \<and> ''u2'' \<notin> set [''u1'']
   \<and> (\<exists>st' r. collect_research_sources_callback events2 empty_state = Inr st'
         \<and> map_of (index_of st') ''u2'' = Some ''src-2''
         \<and> filter (\<lambda>(k, r). url r = ''u2'') (registry_of st') = [(''src-2'', r)])"
proof -
  have occ: "all_urls events2 = [''u1''] @ ''u2'' # [''u1'', ''u3'', ''u2'']"
    by (simp add: all_urls_events2)
  have first: "''u2'' \<notin> set [''u1'']"
    by simp
  have "index_of empty_state = []"
    by (simp add: index_of_def empty_state_def)
  moreover have "src_id (Suc (Suc 0)) = ''src-2''"
    using src_id_values(2) by (simp add: numeral_2_eq_2)
  ultimately show ?thesis
    using well_formed_empty occ one_record_per_url [OF well_formed_empty occ first]
    by auto
qed

lemma loop_post_claims:
  assumes "loop_post events (u2s, srcs, n) (u2s', srcs', n')"
  shows "claims_of srcs' sid = claims_of srcs sid @ appended_claims u2s' events sid"
    and "\<exists>added. u2s' = u2s @ added \<and> registry_pairs srcs' = registry_pairs srcs @ added"
  using assms unfolding loop_post_def prod.case appended_claims_def by blast+

text \<open>
  C10. A second run over the same events, from the state the first run left, returns;
  it leaves the index and the keys of the registry as they are, and appends to every
  record the same claim entries the first run appended. So when the first run started
  from a registry without claims, every list of supported claims is twice as long as
  after the first run; and whenever the events carry a resolved claim at all, the state
  after two runs differs from the state after one.
\<close>

theorem second_run_appends_again:
  assumes wf: "well_formed st"
  shows "\<exists>st1 st2.
       collect_research_sources_callback events st = Inr st1
     \<and> collect_research_sources_callback events st1 = Inr st2
     \<and> index_of st2 = index_of st1
     \<and> map fst (registry_of st2) = map fst (registry_of st1)
     \<and> (\<forall>sid. claims_of (registry_of st1) sid =
                 claims_of (registry_of st) sid @ appended_claims (index_of st1) events sid
             \<and> claims_of (registry_of st2) sid =
                 claims_of (registry_of st1) sid @ appended_claims (index_of st1) events sid)
     \<and> ((\<forall>sid. claims_of (registry_of st) sid = []) \<longrightarrow>
          (\<forall>sid. length (claims_of (registry_of st2) sid) =
                   2 * length (claims_of (registry_of st1) sid)))
     \<and> ((\<exists>sid. appended_claims (index_of st1) events sid \<noteq> []) \<longrightarrow> st2 \<noteq> st1)"
proof -
  obtain st1 where run1: "collect_research_sources_callback events st = Inr st1"
    and post1: "loop_post events (index_of st, registry_of st, Suc (length (index_of st)))
          (index_of st1, registry_of st1, Suc (length (index_of st1)))"
    using callback_post [OF well_formed_inv [OF wf]] by blast
  note p1 = loop_post_index [OF post1]
  obtain st2 where run2: "collect_research_sources_callback events st1 = Inr st2"
    and post2: "loop_post events (index_of st1, registry_of st1, Suc (length (index_of st1)))
          (index_of st2, registry_of st2, Suc (length (index_of st2)))"
    using callback_post [OF p1(3)] by blast
  have idx: "index_of st2 = index_of st1"
    using loop_post_index(1) [OF post2] p1(2) by (simp add: extend_index_all_known)
  have "registry_pairs (registry_of st2) = registry_pairs (registry_of st1)"
    using loop_post_claims(2) [OF post2] idx by auto
  then have keys: "map fst (registry_of st2) = map fst (registry_of st1)"
    using snd_registry_pairs by metis
  have c1: "claims_of (registry_of st1) sid =
      claims_of (registry_of st) sid @ appended_claims (index_of st1) events sid" for sid
    using loop_post_claims(1) [OF post1] .
  have c2: "claims_of (registry_of st2) sid =
      claims_of (registry_of st1) sid @ appended_claims (index_of st1) events sid" for sid
    using loop_post_claims(1) [OF post2] idx by simp
  have twice: "length (claims_of (registry_of st2) sid) = 2 * length (claims_of (registry_of st1) sid)"
    if "\<forall>sid. claims_of (registry_of st) sid = []" for sid
    using c1 [of sid] c2 [of sid] that by simp
  have differ: "st2 \<noteq> st1" if "\<exists>sid. appended_claims (index_of st1) events sid \<noteq> []"
  proof
    assume "st2 = st1"
    then have "claims_of (registry_of st2) sid = claims_of (registry_of st1) sid" for sid
      by simp
    then show False using c2 that by simp
  qed
  show ?thesis
    using run1 run2 idx keys c1 c2 twice differ by blast
qed

lemma src_id_two: "src_id (Suc (Suc 0)) = ''src-2''"
  using src_id_values(2) by (simp add: numeral_2_eq_2)

lemma first_run_events10: "collect_research_sources_callback events10 empty_state = Inr state10"
  by (simp add: collect_research_sources_callback_def events10_def empty_state_def state10_def
      chunks_event_def web_chunk_def process_event_def enumerate_int_def process_support_def
      Let_def src_id_values src_id_two)

lemma appended_claims_events10:
  "appended_claims (index_of state10) events10 ''src-1'' =
     [\<lparr>text_segment = ''water is wet'', confidence = 0.8\<rparr>]"
  by (simp add: appended_claims_def event_entries_def events10_def chunks_event_def web_chunk_def
      event_supports_def event_chunks_def support_entries_def resolved_entries_def claim_for_def
      chunk_url_at_def index_of_def state10_def empty_state_def Let_def)

theorem second_run_appends_again_witness:
  "well_formed empty_state
   \<and> collect_research_sources_callback events10 empty_state = Inr state10
   \<and> (\<exists>st2. collect_research_sources_callback events10 state10 = Inr st2
         \<and> index_of st2 = index_of state10
         \<and> map fst (registry_of st2) = map fst (registry_of state10)
         \<and> claims_of (registry_of state10) ''src-1'' =
             [\<lparr>text_segment = ''water is wet'', confidence = 0.8\<rparr>]
         \<and> claims_of (registry_of st2) ''src-1'' =
             [\<lparr>text_segment = ''water is wet'', confidence = 0.8\<rparr>,
              \<lparr>text_segment = ''water is wet'', confidence = 0.8\<rparr>]
         \<and> st2 \<noteq> state10)"
proof -
  have none: "\<forall>sid. claims_of (registry_of empty_state) sid = []"
    by (simp add: claims_of_def registry_of_def empty_state_def)
  obtain st1 st2 where
    run1: "collect_research_sources_callback events10 empty_state = Inr st1"
    and run2: "collect_research_sources_callback events10 st1 = Inr st2"
    and keep: "index_of st2 = index_of st1" "map fst (registry_of st2) = map fst (registry_of st1)"
    and claims: "\<forall>sid. claims_of (registry_of st1) sid =
                 claims_of (registry_of empty_state) sid @ appended_claims (index_of st1) events10 sid
             \<and> claims_of (registry_of st2) sid =
                 claims_of (registry_of st1) sid @ appended_claims (index_of st1) events10 sid"
    and differ: "(\<exists>sid. appended_claims (index_of st1) events10 sid \<noteq> []) \<longrightarrow> st2 \<noteq> st1"
    using second_run_appends_again [OF well_formed_empty, of events10] by blast
  have st1: "st1 = state10"
    using run1 first_run_events10 by simp
  have "st2 \<noteq> state10"
    using differ appended_claims_events10 unfolding st1 by force
  then show ?thesis
    using well_formed_empty first_run_events10 run2 keep claims none appended_claims_events10
    unfolding st1 by auto
qed

subsection \<open>Consistency of index and registry\<close>

text \<open>
  C5, as the specification states it, fails: mutual consistency alone is not kept. In the
  consistent state whose index maps \<open>a\<close> to \<open>src-2\<close>, the counter starts at 2, a new URL
  \<open>b\<close> is given \<open>src-2\<close> again and overwrites the record, and \<open>src-2\<close> is then the
  identifier of two URLs.
\<close>

theorem consistency_counterexample:
  "mutually_consistent (index_of state5) (registry_of state5)
   \<and> collect_research_sources_callback events5 state5 = Inr state5_after
   \<and> \<not> mutually_consistent (index_of state5_after) (registry_of state5_after)"
  by (simp add: mutually_consistent_def index_of_def registry_of_def state5_def state5_after_def
      empty_state_def events5_def chunks_event_def web_chunk_def
      collect_research_sources_callback_def process_event_def enumerate_int_def Let_def src_id_two)

lemma distinct_src_ids: "distinct (map src_id [a..<b])"
  by (simp add: distinct_map inj_on_def src_id_inject)

lemma count_list_distinct: "distinct xs \<Longrightarrow> x \<in> set xs \<Longrightarrow> count_list xs x = 1"
  by (induction xs) auto

lemma consistent_inv:
  assumes c: "mutually_consistent u2s srcs" and num: "identifiers_numbered u2s"
  shows "collector_inv u2s srcs (Suc (length u2s))"
proof -
  have "snd ` set u2s \<subseteq> fst ` set srcs"
    using c by (auto simp: mutually_consistent_def list_all_iff)
  moreover have "src_id k \<notin> fst ` set srcs" if "Suc (length u2s) \<le> k" for k
  proof
    assume "src_id k \<in> fst ` set srcs"
    then have "count_list (map snd u2s) (src_id k) = 1"
      using c by (auto simp: mutually_consistent_def list_all_iff)
    then have "src_id k \<in> set (map snd u2s)"
      by (metis count_list_0_iff zero_neq_one)
    then have "src_id k \<in> set (map src_id [1..<Suc (length u2s)])"
      using num by (auto simp: identifiers_numbered_def list_all_iff)
    then show False using that by (auto simp: src_id_inject)
  qed
  ultimately show ?thesis by (simp add: collector_inv_def)
qed

lemma consistent_extend:
  assumes c: "mutually_consistent u2s srcs" and num: "identifiers_numbered u2s"
    and u2s': "u2s' = u2s @ zip new ids" and len: "length new = length ids"
    and ids: "ids = map src_id [Suc (length u2s)..<Suc (length u2s) + length new]"
    and keys: "map fst srcs' = map fst srcs @ ids"
  shows "mutually_consistent u2s' srcs' \<and> identifiers_numbered u2s'"
proof -
  have vals: "map snd u2s' = map snd u2s @ ids"
    using u2s' len by simp
  have old: "set (map snd u2s) \<subseteq> set (map src_id [1..<Suc (length u2s)])"
    using num by (auto simp: identifiers_numbered_def list_all_iff)
  have disj: "set (map snd u2s) \<inter> set ids = {}"
    using old unfolding ids by (auto simp: src_id_inject)
  have sub: "set (map snd u2s) \<subseteq> set (map fst srcs)"
    using c by (auto simp: mutually_consistent_def list_all_iff)
  have one: "count_list (map snd u2s) k = 1" if "k \<in> set (map fst srcs)" for k
    using c that by (auto simp: mutually_consistent_def list_all_iff)
  have keys_old: "set (map fst srcs) \<subseteq> set (map snd u2s)"
  proof
    fix k assume "k \<in> set (map fst srcs)"
    then show "k \<in> set (map snd u2s)"
      using one [of k] by (metis count_list_0_iff zero_neq_one)
  qed
  have a: "list_all (\<lambda>(u, sid). sid \<in> set (map fst srcs')) u2s'"
  proof -
    have "set (map snd u2s') \<subseteq> set (map fst srcs')"
      unfolding vals keys using sub by auto
    then show ?thesis by (force simp: list_all_iff)
  qed
  have b: "count_list (map snd u2s') k = 1" if "k \<in> set (map fst srcs')" for k
  proof (cases "k \<in> set (map fst srcs)")
    case True
    then have "k \<notin> set ids" using keys_old disj by auto
    then show ?thesis unfolding vals using one [OF True] by simp
  next
    case False
    then have k: "k \<in> set ids" using that unfolding keys by simp
    then have "k \<notin> set (map snd u2s)" using disj by auto
    moreover have "count_list ids k = 1"
      using k unfolding ids by (intro count_list_distinct distinct_src_ids)
    ultimately show ?thesis unfolding vals by simp
  qed
  have "length u2s' = length u2s + length new"
    using u2s' len by simp
  moreover have "[1..<Suc (length u2s + length new)] =
      [1..<Suc (length u2s)] @ [Suc (length u2s)..<Suc (length u2s) + length new]"
    using upt_add_eq_append [of 1 "Suc (length u2s)" "length new"] by simp
  ultimately have "set (map snd u2s') \<subseteq> set (map src_id [1..<Suc (length u2s')])"
    unfolding vals using old ids by auto
  then have "identifiers_numbered u2s'"
    by (auto simp: identifiers_numbered_def list_all_iff)
  then show ?thesis
    using a b by (auto simp: mutually_consistent_def list_all_iff)
qed

text \<open>
  C5, as amended. A run that starts from a state in which index and registry are
  mutually consistent and every identifier of the index is \<open>src-k\<close> for some \<open>k\<close> from 1 to
  the size of the index returns, and leaves a state with both properties. The state of a
  fresh session is such a state, so every state the callback reaches is.
\<close>

theorem consistency_preserved:
  assumes c: "mutually_consistent (index_of st) (registry_of st)"
    and num: "identifiers_numbered (index_of st)"
  shows "\<exists>st'. collect_research_sources_callback events st = Inr st'
     \<and> mutually_consistent (index_of st') (registry_of st')
     \<and> identifiers_numbered (index_of st')"
proof -
  obtain st' where run: "collect_research_sources_callback events st = Inr st'"
    and post: "loop_post events (index_of st, registry_of st, Suc (length (index_of st)))
          (index_of st', registry_of st', Suc (length (index_of st')))"
    using callback_post [OF consistent_inv [OF c num]] by blast
  define new where "new = fresh_urls (map fst (index_of st)) (all_urls events)"
  define ids where "ids = map src_id [Suc (length (index_of st))..<Suc (length (index_of st)) + length new]"
  have len: "length new = length ids"
    by (simp add: ids_def del: upt_Suc)
  have ext: "index_of st' = index_of st @ zip new ids"
    using loop_post_index(1) [OF post] by (simp add: extend_index_def Let_def new_def ids_def)
  obtain added where "index_of st' = index_of st @ added"
    and pairs: "registry_pairs (registry_of st') = registry_pairs (registry_of st) @ added"
    using loop_post_claims(2) [OF post] by blast
  then have "added = zip new ids"
    using ext by simp
  then have "map snd (registry_pairs (registry_of st')) = map snd (registry_pairs (registry_of st)) @ ids"
    using pairs len by simp
  then have keys: "map fst (registry_of st') = map fst (registry_of st) @ ids"
    by (simp add: snd_registry_pairs)
  show ?thesis
    using run consistent_extend [OF c num ext len ids_def keys] by blast
qed

theorem consistency_preserved_witness:
  "mutually_consistent (index_of state6) (registry_of state6)
   \<and> identifiers_numbered (index_of state6)
   \<and> (\<exists>st'. collect_research_sources_callback events2 state6 = Inr st'
         \<and> mutually_consistent (index_of st') (registry_of st')
         \<and> identifiers_numbered (index_of st'))"
proof -
  have c: "mutually_consistent (index_of state6) (registry_of state6)"
    by (simp add: mutually_consistent_def index_of_def registry_of_def state6_def registry6_def)
  have "[1..<Suc 2] = [Suc 0, 2]"
    by (simp add: upt_rec)
  then have num: "identifiers_numbered (index_of state6)"
    by (simp add: identifiers_numbered_def index_of_def state6_def src_id_values src_id_two)
  show ?thesis
    using c num consistency_preserved [OF c num, of events2] by simp
qed

end
